theory Spec2Isabelle
  imports Complex_Main "HOL-Library.Sublist"
begin

section \<open>JavaScript strings\<close>

text \<open>
  A JavaScript string is a sequence of UTF-16 code units; \<open>length\<close> counts code units, as
  \<^verbatim>\<open>String.prototype.length\<close> does. Literals of the source are written with \<open>str\<close>.
\<close>

type_synonym jstring = "nat list"

definition str :: "string \<Rightarrow> jstring" where
  "str = map of_char"

text \<open>
  \<^verbatim>\<open>\s\<close> and \<^verbatim>\<open>trim()\<close> use the same set: WhiteSpace and LineTerminator of ECMAScript
  (TAB, LF, VT, FF, CR, SP, NBSP, U+1680, U+2000..U+200A, U+2028, U+2029, U+202F, U+205F,
  U+3000, U+FEFF).
\<close>

definition is_space :: "nat \<Rightarrow> bool" where
  "is_space c = (c \<in> set [9, 10, 11, 12, 13, 32, 160, 5760, 8232, 8233, 8239, 8287, 12288, 65279]
                 \<or> (8192 \<le> c \<and> c \<le> 8202))"

definition is_digit :: "nat \<Rightarrow> bool" where
  "is_digit c = (48 \<le> c \<and> c \<le> 57)"

definition trim :: "jstring \<Rightarrow> jstring" where
  "trim s = rev (dropWhile is_space (rev (dropWhile is_space s)))"

definition starts_with :: "jstring \<Rightarrow> jstring \<Rightarrow> bool" where
  "starts_with s p = (take (length p) s = p)"

fun str_includes :: "jstring \<Rightarrow> jstring \<Rightarrow> bool" where
  "str_includes [] p = (p = [])"
| "str_includes (c # cs) p = (starts_with (c # cs) p \<or> str_includes cs p)"

text \<open>\<^verbatim>\<open>indexOf\<close> and \<^verbatim>\<open>lastIndexOf\<close> of a single code unit; -1 when it does not occur.\<close>

fun indexOf :: "jstring \<Rightarrow> nat \<Rightarrow> int" where
  "indexOf [] x = -1"
| "indexOf (c # cs) x = (if c = x then 0 else (let i = indexOf cs x in if i = -1 then -1 else i + 1))"

fun lastIndexOf :: "jstring \<Rightarrow> nat \<Rightarrow> int" where
  "lastIndexOf [] x = -1"
| "lastIndexOf (c # cs) x =
     (let i = lastIndexOf cs x in if i \<noteq> -1 then i + 1 else if c = x then 0 else -1)"

definition substring :: "jstring \<Rightarrow> int \<Rightarrow> int \<Rightarrow> jstring" where
  "substring s i j = take (nat j - nat i) (drop (nat i) s)"

text \<open>
  \<^verbatim>\<open>toLowerCase()\<close>: on a string of ASCII code units it is the ASCII case map. On any other
  string it follows the Unicode case tables of the runtime, which are taken as the
  parameter \<open>lc\<close>.
\<close>

definition ascii_lower :: "nat \<Rightarrow> nat" where
  "ascii_lower c = (if 65 \<le> c \<and> c \<le> 90 then c + 32 else c)"

definition toLowerCase :: "(jstring \<Rightarrow> jstring) \<Rightarrow> jstring \<Rightarrow> jstring" where
  "toLowerCase lc s = (if list_all (\<lambda>c. c < 128) s then map ascii_lower s else lc s)"

section \<open>Regular expressions\<close>

text \<open>
  The regular expressions of the source use literals, classes, sequence, ordered
  alternation, greedy and lazy repetition of a class, optional items, the anchors
  \<^verbatim>\<open>^\<close> and \<^verbatim>\<open>$\<close> (no \<^verbatim>\<open>m\<close> flag anywhere) and one negative lookahead; there are no
  capture references. A position is the rest of the input together with the flag
  "this is index 0". \<open>ends r ci p\<close> lists, in the order in which a backtracking matcher
  tries them, the positions at which a match of \<open>r\<close> starting at \<open>p\<close> can end; the match
  the engine reports is the first one.

  With the flag \<^verbatim>\<open>i\<close> (and no \<^verbatim>\<open>u\<close>) two code units match when their canonical forms
  agree; a code unit outside ASCII never canonicalises to an ASCII one, and every literal
  letter of the source's patterns is ASCII, so the ASCII upper-case map is exact here.
\<close>

datatype re =
    Lit nat
  | Cls "nat \<Rightarrow> bool"
  | Seq re re
  | Alt re re
  | Star "nat \<Rightarrow> bool"
  | Plus "nat \<Rightarrow> bool"
  | LazyStar "nat \<Rightarrow> bool"
  | Opt re
  | Bol
  | Eol
  | NotAhead re

type_synonym pos = "bool \<times> jstring"

definition canon :: "nat \<Rightarrow> nat" where
  "canon c = (if 97 \<le> c \<and> c \<le> 122 then c - 32 else c)"

fun star_ends :: "(nat \<Rightarrow> bool) \<Rightarrow> pos \<Rightarrow> pos list" where
  "star_ends f (b, []) = [(b, [])]"
| "star_ends f (b, c # cs) = (if f c then star_ends f (False, cs) @ [(b, c # cs)] else [(b, c # cs)])"

fun lazy_ends :: "(nat \<Rightarrow> bool) \<Rightarrow> pos \<Rightarrow> pos list" where
  "lazy_ends f (b, []) = [(b, [])]"
| "lazy_ends f (b, c # cs) = (b, c # cs) # (if f c then lazy_ends f (False, cs) else [])"

primrec ends :: "re \<Rightarrow> bool \<Rightarrow> pos \<Rightarrow> pos list" where
  "ends (Lit x) ci p =
     (case snd p of [] \<Rightarrow> []
      | c # cs \<Rightarrow> if (if ci then canon c = canon x else c = x) then [(False, cs)] else [])"
| "ends (Cls f) ci p = (case snd p of [] \<Rightarrow> [] | c # cs \<Rightarrow> if f c then [(False, cs)] else [])"
| "ends (Seq r1 r2) ci p = concat (map (ends r2 ci) (ends r1 ci p))"
| "ends (Alt r1 r2) ci p = ends r1 ci p @ ends r2 ci p"
| "ends (Star f) ci p = star_ends f p"
| "ends (Plus f) ci p =
     (case snd p of [] \<Rightarrow> [] | c # cs \<Rightarrow> if f c then star_ends f (False, cs) else [])"
| "ends (LazyStar f) ci p = lazy_ends f p"
| "ends (Opt r) ci p = ends r ci p @ [p]"
| "ends Bol ci p = (if fst p then [p] else [])"
| "ends Eol ci p = (if snd p = [] then [p] else [])"
| "ends (NotAhead r) ci p = (if ends r ci p = [] then [p] else [])"

text \<open>The length of the match of \<open>r\<close> at position \<open>p\<close>, if there is one.\<close>

definition rmatch :: "re \<Rightarrow> bool \<Rightarrow> pos \<Rightarrow> nat option" where
  "rmatch r ci p =
     (case ends r ci p of [] \<Rightarrow> None | q # _ \<Rightarrow> Some (length (snd p) - length (snd q)))"

fun lits :: "jstring \<Rightarrow> re" where
  "lits [] = Opt (Cls (\<lambda>c. False))"
| "lits [c] = Lit c"
| "lits (c # cs) = Seq (Lit c) (lits cs)"

text \<open>
  \<^verbatim>\<open>s.replace(/r/g, rep)\<close> with a constant replacement: matches are found from left to
  right, the search resumes where a match ended, and after an empty match one code unit
  is copied.
\<close>

fun greplace :: "re \<Rightarrow> bool \<Rightarrow> jstring \<Rightarrow> bool \<Rightarrow> jstring \<Rightarrow> jstring" where
  "greplace r ci rep b [] = (case rmatch r ci (b, []) of None \<Rightarrow> [] | Some n \<Rightarrow> rep)"
| "greplace r ci rep b (c # cs) =
     (case rmatch r ci (b, c # cs) of
        None \<Rightarrow> c # greplace r ci rep False cs
      | Some 0 \<Rightarrow> rep @ c # greplace r ci rep False cs
      | Some (Suc n) \<Rightarrow> rep @ greplace r ci rep False (drop n cs))"

text \<open>\<^verbatim>\<open>s.replace(/r/, rep)\<close> without the flag \<^verbatim>\<open>g\<close>: only the first match is replaced.\<close>

fun replace_first :: "re \<Rightarrow> bool \<Rightarrow> jstring \<Rightarrow> bool \<Rightarrow> jstring \<Rightarrow> jstring" where
  "replace_first r ci rep b [] = (case rmatch r ci (b, []) of None \<Rightarrow> [] | Some n \<Rightarrow> rep)"
| "replace_first r ci rep b (c # cs) =
     (case rmatch r ci (b, c # cs) of
        None \<Rightarrow> c # replace_first r ci rep False cs
      | Some n \<Rightarrow> rep @ drop n (c # cs))"

text \<open>
  \<^verbatim>\<open>s.split(/r/)\<close> for a pattern without capture groups: at each index the pattern is
  tried; a match that is empty and starts where the current piece starts is skipped, any
  other match closes the current piece and the search resumes where it ended. No match
  is tried at the end of the input.
\<close>

fun cons_first :: "nat \<Rightarrow> jstring list \<Rightarrow> jstring list" where
  "cons_first c [] = [[c]]"
| "cons_first c (p # ps) = (c # p) # ps"

fun gsplit :: "re \<Rightarrow> bool \<Rightarrow> bool \<Rightarrow> bool \<Rightarrow> jstring \<Rightarrow> jstring list" where
  "gsplit r ci b fresh [] = [[]]"
| "gsplit r ci b fresh (c # cs) =
     (case rmatch r ci (b, c # cs) of
        None \<Rightarrow> cons_first c (gsplit r ci False False cs)
      | Some 0 \<Rightarrow> (if fresh then cons_first c (gsplit r ci False False cs)
                   else [] # cons_first c (gsplit r ci False False cs))
      | Some (Suc n) \<Rightarrow> [] # gsplit r ci False True (drop n cs))"

definition split_re :: "re \<Rightarrow> bool \<Rightarrow> jstring \<Rightarrow> jstring list" where
  "split_re r ci s =
     (if s = [] then (case rmatch r ci (True, []) of None \<Rightarrow> [[]] | Some n \<Rightarrow> [])
      else gsplit r ci True True s)"

text \<open>\<^verbatim>\<open>s.match(/r/)\<close> without the flag \<^verbatim>\<open>g\<close>: the text of the leftmost match.\<close>

fun match_first :: "re \<Rightarrow> bool \<Rightarrow> bool \<Rightarrow> jstring \<Rightarrow> jstring option" where
  "match_first r ci b [] = (case rmatch r ci (b, []) of None \<Rightarrow> None | Some n \<Rightarrow> Some [])"
| "match_first r ci b (c # cs) =
     (case rmatch r ci (b, c # cs) of
        None \<Rightarrow> match_first r ci False cs
      | Some n \<Rightarrow> Some (take n (c # cs)))"

section \<open>JSON.parse\<close>

text \<open>
  \<^verbatim>\<open>JSON.parse\<close> is modelled by the JSON grammar (ECMA-404): a lexer from code units to
  tokens and a recursive-descent parser on tokens. A number keeps its literal text and an
  object keeps its members in source order. \<open>None\<close> stands for the SyntaxError that
  \<^verbatim>\<open>JSON.parse\<close> throws.
\<close>

datatype 'a token =
    TLBrack | TRBrack | TLBrace | TRBrace | TComma | TColon
  | TStr 'a | TNum 'a | TTrue | TFalse | TNull

datatype 'a json =
    JString 'a
  | JNumber 'a
  | JBool bool
  | JNull
  | JArray "'a json list"
  | JObject "('a \<times> 'a json) list"

type_synonym jval = "jstring json"

definition hexv :: "nat \<Rightarrow> nat option" where
  "hexv c = (if 48 \<le> c \<and> c \<le> 57 then Some (c - 48)
             else if 97 \<le> c \<and> c \<le> 102 then Some (c - 87)
             else if 65 \<le> c \<and> c \<le> 70 then Some (c - 55)
             else None)"

definition unescape :: "nat \<Rightarrow> nat option" where
  "unescape e = (if e = 34 then Some 34 else if e = 92 then Some 92 else if e = 47 then Some 47
                 else if e = 98 then Some 8 else if e = 102 then Some 12
                 else if e = 110 then Some 10 else if e = 114 then Some 13
                 else if e = 116 then Some 9 else None)"

definition push_cu :: "nat \<Rightarrow> (jstring \<times> jstring) option \<Rightarrow> (jstring \<times> jstring) option" where
  "push_cu c r = (case r of None \<Rightarrow> None | Some (a, rest) \<Rightarrow> Some (c # a, rest))"

text \<open>The body of a string literal, after the opening quote: its value and the input after
  the closing quote.\<close>

fun scan_string :: "jstring \<Rightarrow> (jstring \<times> jstring) option" where
  "scan_string [] = None"
| "scan_string (c # cs) =
     (if c = 34 then Some ([], cs)
      else if c = 92 then
        (case cs of
           [] \<Rightarrow> None
         | e # r \<Rightarrow>
             if e = 117 then
               (case r of
                  h1 # h2 # h3 # h4 # r' \<Rightarrow>
                    (case (hexv h1, hexv h2, hexv h3, hexv h4) of
                       (Some a, Some b, Some c', Some d) \<Rightarrow>
                         push_cu (((a * 16 + b) * 16 + c') * 16 + d) (scan_string r')
                     | _ \<Rightarrow> None)
                | _ \<Rightarrow> None)
             else (case unescape e of None \<Rightarrow> None | Some x \<Rightarrow> push_cu x (scan_string r)))
      else if c < 32 then None
      else push_cu c (scan_string cs))"

text \<open>A number literal: \<^verbatim>\<open>-? (0 | [1-9][0-9]*) (. [0-9]+)? ([eE] [+-]? [0-9]+)?\<close>.\<close>

definition scan_int :: "jstring \<Rightarrow> (jstring \<times> jstring) option" where
  "scan_int s =
     (case s of
        [] \<Rightarrow> None
      | c # r \<Rightarrow> if c = 48 then Some ([48], r)
                 else if is_digit c then Some (c # takeWhile is_digit r, dropWhile is_digit r)
                 else None)"

definition scan_frac :: "jstring \<Rightarrow> (jstring \<times> jstring) option" where
  "scan_frac s =
     (case s of
        [] \<Rightarrow> Some ([], s)
      | c # r \<Rightarrow> if c = 46
                 then (if takeWhile is_digit r = [] then None
                       else Some (c # takeWhile is_digit r, dropWhile is_digit r))
                 else Some ([], s))"

definition scan_sign :: "jstring \<Rightarrow> jstring \<times> jstring" where
  "scan_sign s = (case s of [] \<Rightarrow> ([], s) | d # r \<Rightarrow> if d = 43 \<or> d = 45 then ([d], r) else ([], s))"

definition scan_exp :: "jstring \<Rightarrow> (jstring \<times> jstring) option" where
  "scan_exp s =
     (case s of
        [] \<Rightarrow> Some ([], s)
      | c # r \<Rightarrow> if c = 101 \<or> c = 69
                 then (case scan_sign r of (sg, r') \<Rightarrow>
                         if takeWhile is_digit r' = [] then None
                         else Some (c # sg @ takeWhile is_digit r', dropWhile is_digit r'))
                 else Some ([], s))"

definition scan_number :: "jstring \<Rightarrow> (jstring \<times> jstring) option" where
  "scan_number s =
     (case (case s of [] \<Rightarrow> ([], s) | c # r \<Rightarrow> if c = 45 then ([c], r) else ([], s)) of
        (sg, s1) \<Rightarrow>
          (case scan_int s1 of None \<Rightarrow> None | Some (ip, s2) \<Rightarrow>
          (case scan_frac s2 of None \<Rightarrow> None | Some (fp, s3) \<Rightarrow>
          (case scan_exp s3 of None \<Rightarrow> None | Some (ep, s4) \<Rightarrow>
             Some (sg @ ip @ fp @ ep, s4)))))"

definition is_json_ws :: "nat \<Rightarrow> bool" where
  "is_json_ws c = (c = 32 \<or> c = 9 \<or> c = 10 \<or> c = 13)"

text \<open>The first token of an input that starts with no white space.\<close>

definition next_token :: "jstring \<Rightarrow> (jstring token \<times> jstring) option" where
  "next_token s =
     (case s of
        [] \<Rightarrow> None
      | c # cs \<Rightarrow>
          if c = 91 then Some (TLBrack, cs)
          else if c = 93 then Some (TRBrack, cs)
          else if c = 123 then Some (TLBrace, cs)
          else if c = 125 then Some (TRBrace, cs)
          else if c = 44 then Some (TComma, cs)
          else if c = 58 then Some (TColon, cs)
          else if c = 34 then
            (case scan_string cs of None \<Rightarrow> None | Some (v, rest) \<Rightarrow> Some (TStr v, rest))
          else if c = 45 \<or> is_digit c then
            (case scan_number s of None \<Rightarrow> None | Some (n, rest) \<Rightarrow> Some (TNum n, rest))
          else if starts_with s (str ''true'') then Some (TTrue, drop 4 s)
          else if starts_with s (str ''false'') then Some (TFalse, drop 5 s)
          else if starts_with s (str ''null'') then Some (TNull, drop 4 s)
          else None)"

lemma push_cu_Some: "push_cu c r = Some (a, rest) \<Longrightarrow> \<exists>a'. r = Some (a', rest) \<and> a = c # a'"
  by (auto simp: push_cu_def split: option.splits)

lemma scan_string_shorter: "scan_string s = Some (v, rest) \<Longrightarrow> length rest < length s"
proof (induction "length s" arbitrary: s v rule: less_induct)
  case less
  show ?case
  proof (cases s)
    case Nil
    with less.prems show ?thesis by simp
  next
    case (Cons c cs)
    note s = this
    show ?thesis
    proof (cases "c = 34")
      case True
      with less.prems s show ?thesis by simp
    next
      case c34: False
      show ?thesis
      proof (cases "c = 92")
        case True
        then obtain e r where cs: "cs = e # r"
          using less.prems s by (cases cs) auto
        show ?thesis
        proof (cases "e = 117")
          case e117: True
          then obtain h1 h2 h3 h4 r' where r: "r = h1 # h2 # h3 # h4 # r'"
            using less.prems True cs s by (auto split: list.splits)
          from less.prems True cs e117 r s obtain x where
            p: "push_cu x (scan_string r') = Some (v, rest)"
            by (auto split: option.splits)
          from p obtain a' where "scan_string r' = Some (a', rest)"
            using push_cu_Some by blast
          with less.hyps[of r' a'] s cs r have "length rest < length r'"
            by simp
          with cs r s show ?thesis by simp
        next
          case e117: False
          from less.prems True cs e117 s obtain x where
            p: "push_cu x (scan_string r) = Some (v, rest)"
            by (auto split: option.splits)
          from p obtain a' where "scan_string r = Some (a', rest)"
            using push_cu_Some by blast
          with less.hyps[of r a'] s cs have "length rest < length r" by simp
          with cs s show ?thesis by simp
        qed
      next
        case c92: False
        with less.prems c34 s have p: "push_cu c (scan_string cs) = Some (v, rest)"
          by (auto split: if_splits)
        from p obtain a' where "scan_string cs = Some (a', rest)"
          using push_cu_Some by blast
        with less.hyps[of cs a'] s have "length rest < length cs" by simp
        with s show ?thesis by simp
      qed
    qed
  qed
qed

lemma scan_int_shorter: "scan_int s = Some (v, rest) \<Longrightarrow> length rest < length s"
  by (auto simp: scan_int_def less_Suc_eq_le length_dropWhile_le split: list.splits if_splits)

lemma scan_frac_shorter: "scan_frac s = Some (v, rest) \<Longrightarrow> length rest \<le> length s"
  by (auto simp: scan_frac_def le_SucI length_dropWhile_le split: list.splits if_splits)

lemma scan_exp_shorter: "scan_exp s = Some (v, rest) \<Longrightarrow> length rest \<le> length s"
  by (auto simp: scan_exp_def scan_sign_def le_SucI length_dropWhile_le
      intro: le_trans[OF length_dropWhile_le] split: list.splits if_splits)

lemma scan_number_shorter: "scan_number s = Some (v, rest) \<Longrightarrow> length rest < length s"
proof -
  assume a: "scan_number s = Some (v, rest)"
  obtain sg s1 where sg: "(case s of [] \<Rightarrow> ([], s) | c # r \<Rightarrow> if c = 45 then ([c], r) else ([], s)) = (sg, s1)"
    by (cases "(case s of [] \<Rightarrow> ([]::jstring, s) | c # r \<Rightarrow> if c = 45 then ([c], r) else ([], s))") auto
  then have l1: "length s1 \<le> length s"
    by (auto split: list.splits if_splits)
  from a sg obtain ip s2 fp s3 ep where
    i: "scan_int s1 = Some (ip, s2)" and f: "scan_frac s2 = Some (fp, s3)"
    and e: "scan_exp s3 = Some (ep, rest)"
    by (auto simp: scan_number_def split: option.splits)
  from scan_int_shorter[OF i] scan_frac_shorter[OF f] scan_exp_shorter[OF e] l1
  show ?thesis by linarith
qed

lemma next_token_shorter: "next_token s = Some (t, rest) \<Longrightarrow> length rest < length s"
  by (cases s)
     (auto simp: next_token_def starts_with_def less_Suc_eq_le
        dest!: scan_string_shorter scan_number_shorter split: if_splits option.splits)

text \<open>The token sequence of an input; white space between tokens is skipped.\<close>

function lex :: "jstring \<Rightarrow> jstring token list option" where
  "lex [] = Some []"
| "lex (c # cs) =
     (if is_json_ws c then lex cs
      else (case next_token (c # cs) of
              None \<Rightarrow> None
            | Some (t, rest) \<Rightarrow> (case lex rest of None \<Rightarrow> None | Some ts \<Rightarrow> Some (t # ts))))"
  by pat_completeness auto
termination
  by (relation "measure length") (auto dest: next_token_shorter)

text \<open>
  The parser. An array is \<^verbatim>\<open>[ ]\<close> or \<^verbatim>\<open>[ value (, value)* ]\<close>, an object is \<^verbatim>\<open>{ }\<close> or
  \<^verbatim>\<open>{ string : value (, string : value)* }\<close>. Each function returns what it parsed and the
  tokens left. The test on the length of the tokens left before a list is continued
  always succeeds (\<open>parse_value_shorter\<close> below); it makes the recursion well-founded.
\<close>

fun parse_value :: "'a token list \<Rightarrow> ('a json \<times> 'a token list) option"
  and parse_elems :: "'a token list \<Rightarrow> ('a json list \<times> 'a token list) option"
  and parse_members :: "'a token list \<Rightarrow> (('a \<times> 'a json) list \<times> 'a token list) option"
where
  "parse_value [] = None"
| "parse_value (t # ts) =
     (case t of
        TStr s \<Rightarrow> Some (JString s, ts)
      | TNum n \<Rightarrow> Some (JNumber n, ts)
      | TTrue \<Rightarrow> Some (JBool True, ts)
      | TFalse \<Rightarrow> Some (JBool False, ts)
      | TNull \<Rightarrow> Some (JNull, ts)
      | TLBrack \<Rightarrow>
          (case ts of
             TRBrack # r \<Rightarrow> Some (JArray [], r)
           | _ \<Rightarrow> (case parse_elems ts of None \<Rightarrow> None | Some (vs, r) \<Rightarrow> Some (JArray vs, r)))
      | TLBrace \<Rightarrow>
          (case ts of
             TRBrace # r \<Rightarrow> Some (JObject [], r)
           | _ \<Rightarrow> (case parse_members ts of None \<Rightarrow> None | Some (ms, r) \<Rightarrow> Some (JObject ms, r)))
      | _ \<Rightarrow> None)"
| "parse_elems ts =
     (case parse_value ts of
        None \<Rightarrow> None
      | Some (v, r) \<Rightarrow>
          (case r of
             TComma # r' \<Rightarrow>
               (if length r' < length ts
                then (case parse_elems r' of None \<Rightarrow> None | Some (vs, r'') \<Rightarrow> Some (v # vs, r''))
                else None)
           | TRBrack # r' \<Rightarrow> Some ([v], r')
           | _ \<Rightarrow> None))"
| "parse_members ts =
     (case ts of
        TStr k # TColon # ts' \<Rightarrow>
          (case parse_value ts' of
             None \<Rightarrow> None
           | Some (v, r) \<Rightarrow>
               (case r of
                  TComma # r' \<Rightarrow>
                    (if length r' < length ts
                     then (case parse_members r' of None \<Rightarrow> None
                           | Some (ms, r'') \<Rightarrow> Some ((k, v) # ms, r''))
                     else None)
                | TRBrace # r' \<Rightarrow> Some ([(k, v)], r')
                | _ \<Rightarrow> None))
      | _ \<Rightarrow> None)"

definition JSON_parse :: "jstring \<Rightarrow> jval option" where
  "JSON_parse s =
     (case lex s of
        None \<Rightarrow> None
      | Some ts \<Rightarrow> (case parse_value ts of Some (v, []) \<Rightarrow> Some v | _ \<Rightarrow> None))"

section \<open>The response normalizer\<close>

subsection \<open>The patterns of the source\<close>

text \<open>\<^verbatim>\<open>/```json/gi\<close> and \<^verbatim>\<open>/```/g\<close>\<close>

definition fence_json_re :: re where
  "fence_json_re = lits (str ''```json'')"

definition fence_re :: re where
  "fence_re = lits (str ''```'')"

text \<open>\<^verbatim>\<open>/\n\s*(?!["}\]])/g\<close>\<close>

definition newline_re :: re where
  \<open>newline_re = Seq (Lit 10) (Seq (Star is_space) (NotAhead (Cls (\<lambda>c. c \<in> set (str ''"}]'')))))\<close>

text \<open>\<^verbatim>\<open>/",\s*|,\s*"/\<close>\<close>

definition quote_comma_re :: re where
  "quote_comma_re = Alt (Seq (Lit 34) (Seq (Lit 44) (Star is_space)))
                        (Seq (Lit 44) (Seq (Star is_space) (Lit 34)))"

text \<open>\<^verbatim>\<open>/^\[?"|"?\]?$/g\<close>\<close>

definition item_edge_re :: re where
  "item_edge_re = Alt (Seq Bol (Seq (Opt (Lit 91)) (Lit 34)))
                      (Seq (Opt (Lit 34)) (Seq (Opt (Lit 93)) Eol))"

text \<open>\<^verbatim>\<open>/(?:\r\n|\r|\n)\s*(?:[\d]+[\.\)]|\-|\*|U+2022|Option \d+|Variation \d+)\s+/i\<close>,
  where U+2022 is the bullet character, code unit 8226.\<close>

definition list_marker_re :: re where
  "list_marker_re =
     Seq (Alt (Seq (Lit 13) (Lit 10)) (Alt (Lit 13) (Lit 10)))
    (Seq (Star is_space)
    (Seq (Alt (Seq (Plus is_digit) (Cls (\<lambda>c. c = 46 \<or> c = 41)))
         (Alt (Lit 45)
         (Alt (Lit 42)
         (Alt (Lit 8226)
         (Alt (Seq (lits (str ''Option '')) (Plus is_digit))
              (Seq (lits (str ''Variation '')) (Plus is_digit)))))))
         (Plus is_space)))"

text \<open>\<^verbatim>\<open>/^\["|"$|^"|",?$/g\<close>\<close>

definition artifact_re :: re where
  "artifact_re = Alt (Seq Bol (Seq (Lit 91) (Lit 34)))
                (Alt (Seq (Lit 34) Eol)
                (Alt (Seq Bol (Lit 34))
                     (Seq (Lit 34) (Seq (Opt (Lit 44)) Eol))))"

text \<open>\<^verbatim>\<open>/\n\n+/\<close>\<close>

definition paragraph_re :: re where
  "paragraph_re = Seq (Lit 10) (Plus (\<lambda>c. c = 10))"

subsection \<open>cleanAndParseJSON, the cascade (the second \<^verbatim>\<open>ai-service\<close> of the source)\<close>

text \<open>Step 1: \<^verbatim>\<open>text.replace(/```json/gi, '').replace(/```/g, '').trim()\<close>\<close>

definition clean_fences :: "jstring \<Rightarrow> jstring" where
  "clean_fences s = trim (greplace fence_re False [] True (greplace fence_json_re True [] True s))"

text \<open>
  Step 2, the \<^verbatim>\<open>try\<close> block. \<open>Returned xs\<close>: the block returned the array \<open>xs\<close>;
  \<open>Fallthrough\<close>: control left the block, normally or through its \<^verbatim>\<open>catch\<close>. The first
  \<^verbatim>\<open>JSON.parse\<close> is not inside the inner \<^verbatim>\<open>try\<close>: when it throws, the outer \<^verbatim>\<open>catch\<close>
  is entered and the repaired parse is not attempted.
\<close>

datatype extraction = Returned "jval list" | Fallthrough

text \<open>The replacement \<^verbatim>\<open>"\\n"\<close> of the source is the two code units backslash (92) and n (110).\<close>

definition fix_newlines :: "jstring \<Rightarrow> jstring" where
  "fix_newlines cleaned = greplace newline_re False [92, 110] True cleaned"

definition try_fixed :: "jstring \<Rightarrow> extraction" where
  "try_fixed cleaned =
     (case JSON_parse (fix_newlines cleaned) of
        Some (JArray xs) \<Rightarrow> Returned xs
      | _ \<Rightarrow> Fallthrough)"

definition json_extraction :: "jstring \<Rightarrow> extraction" where
  "json_extraction cleaned =
     (let firstOpen = indexOf cleaned 91;
          lastClose = lastIndexOf cleaned 93
      in if firstOpen \<noteq> -1 \<and> lastClose \<noteq> -1 \<and> lastClose > firstOpen
         then (case JSON_parse (substring cleaned firstOpen (lastClose + 1)) of
                 None \<Rightarrow> Fallthrough
               | Some (JArray xs) \<Rightarrow> Returned xs
               | Some _ \<Rightarrow> try_fixed cleaned)
         else try_fixed cleaned)"

text \<open>Step 3A: a comma-separated list of quoted strings.\<close>

definition quotedItems :: "jstring \<Rightarrow> jstring list" where
  "quotedItems cleaned =
     filter (\<lambda>i. length i > 5)
       (map (\<lambda>item. trim (greplace item_edge_re False [] True item))
          (split_re quote_comma_re False cleaned))"

text \<open>Step 3B: list markers at line starts.\<close>

definition keep_item :: "(jstring \<Rightarrow> jstring) \<Rightarrow> jstring \<Rightarrow> bool" where
  "keep_item lc item =
     (let lower = toLowerCase lc item
      in if length item < 5 then False
         else if starts_with lower (str ''here are'') then False
         else if starts_with lower (str ''berikut adalah'') then False
         else if starts_with lower (str ''sure!'') then False
         else if str_includes lower (str ''linkedin post'') then False
         else True)"

definition validItems :: "(jstring \<Rightarrow> jstring) \<Rightarrow> jstring \<Rightarrow> jstring list" where
  "validItems lc text =
     map (\<lambda>item. trim (greplace artifact_re False [] True item))
       (filter (keep_item lc) (map trim (split_re list_marker_re True text)))"

text \<open>Step 4: paragraphs.\<close>

definition paragraphs :: "jstring \<Rightarrow> jstring list" where
  "paragraphs text = filter (\<lambda>p. length p > 20) (map trim (split_re paragraph_re False text))"

definition cleanAndParseJSON :: "(jstring \<Rightarrow> jstring) \<Rightarrow> jstring \<Rightarrow> jval list" where
  \<open>cleanAndParseJSON lc text =
     (let cleaned = clean_fences text
      in case json_extraction cleaned of
           Returned xs \<Rightarrow> xs
         | Fallthrough \<Rightarrow>
             if (str_includes cleaned (str ''", "'') \<or> starts_with cleaned (str ''"''))
                \<and> length (quotedItems cleaned) > 1
             then map JString (quotedItems cleaned)
             else if length (validItems lc text) > 1 then map JString (validItems lc text)
             else if length (paragraphs text) > 1 then map JString (paragraphs text)
             else [JString text])\<close>

subsection \<open>cleanAndParseJSON, the simpler variant (the first \<^verbatim>\<open>ai-service\<close> of the source)\<close>

text \<open>\<^verbatim>\<open>/\[([\s\S]*?)\]/\<close>, \<^verbatim>\<open>/^\d+[\.\)]\s*/\<close>, \<^verbatim>\<open>/^["']|["']$/g\<close> and \<^verbatim>\<open>/,$/\<close>\<close>

definition array_re :: re where
  "array_re = Seq (Lit 91) (Seq (LazyStar (\<lambda>c. True)) (Lit 93))"

definition ordinal_re :: re where
  "ordinal_re = Seq Bol (Seq (Plus is_digit) (Seq (Cls (\<lambda>c. c = 46 \<or> c = 41)) (Star is_space)))"

definition quote_edge_re :: re where
  "quote_edge_re = Alt (Seq Bol (Cls (\<lambda>c. c = 34 \<or> c = 39))) (Seq (Cls (\<lambda>c. c = 34 \<or> c = 39)) Eol)"

definition trailing_comma_re :: re where
  "trailing_comma_re = Seq (Lit 44) Eol"

text \<open>
  Step 2 of the variant: the first bracketed substring, accepted when it parses to an array
  that is not empty. A SyntaxError is caught and ignored.
\<close>

definition array_match :: "jstring \<Rightarrow> jval list option" where
  "array_match cleaned =
     (case match_first array_re False True cleaned of
        None \<Rightarrow> None
      | Some m \<Rightarrow>
          (case JSON_parse m of
             Some (JArray xs) \<Rightarrow> if length xs > 0 then Some xs else None
           | _ \<Rightarrow> None))"

text \<open>Step 3 of the variant: the lines of the original text. \<^verbatim>\<open>text.split('\n')\<close> splits on
  the one-unit string LF, which is splitting on the pattern that matches LF.\<close>

definition text_lines :: "(jstring \<Rightarrow> jstring) \<Rightarrow> jstring \<Rightarrow> jstring list" where
  "text_lines lc text =
     map (\<lambda>l. replace_first trailing_comma_re False [] True l)
    (map (\<lambda>l. greplace quote_edge_re False [] True l)
    (map (\<lambda>l. replace_first ordinal_re False [] True l)
    (filter (\<lambda>l. \<not> starts_with l [93])
    (filter (\<lambda>l. \<not> starts_with l [91])
    (filter (\<lambda>l. \<not> str_includes (toLowerCase lc l) (str ''here are''))
    (filter (\<lambda>l. length l > 10)
    (map trim (split_re (Lit 10) False text))))))))"

definition cleanAndParseJSON_simple :: "(jstring \<Rightarrow> jstring) \<Rightarrow> jstring \<Rightarrow> jval list" where
  "cleanAndParseJSON_simple lc text =
     (let cleaned = clean_fences text
      in case array_match cleaned of
           Some xs \<Rightarrow> xs
         | None \<Rightarrow>
             if length (text_lines lc text) > 0 then map JString (text_lines lc text)
             else [])"

text \<open>Whether a pattern matches at some index of an input (the end included).\<close>

fun has_match :: "re \<Rightarrow> bool \<Rightarrow> bool \<Rightarrow> jstring \<Rightarrow> bool" where
  "has_match r ci b [] = (rmatch r ci (b, []) \<noteq> None)"
| "has_match r ci b (c # cs) = (rmatch r ci (b, c # cs) \<noteq> None \<or> has_match r ci False cs)"

text \<open>A value that is a string with at least one code unit.\<close>

fun nonempty_string :: "jval \<Rightarrow> bool" where
  "nonempty_string (JString s) = (s \<noteq> [])"
| "nonempty_string _ = False"

fun is_string :: "jval \<Rightarrow> bool" where
  "is_string (JString s) = True"
| "is_string _ = False"

lemmas normalizer_defs =
  cleanAndParseJSON_def cleanAndParseJSON_simple_def clean_fences_def str_def trim_def
  is_space_def fence_re_def fence_json_re_def rmatch_def canon_def json_extraction_def
  substring_def JSON_parse_def is_json_ws_def next_token_def starts_with_def is_digit_def
  push_cu_def hexv_def unescape_def scan_number_def scan_int_def scan_frac_def scan_exp_def
  scan_sign_def Let_def try_fixed_def fix_newlines_def newline_re_def quotedItems_def
  quote_comma_re_def item_edge_re_def split_re_def validItems_def keep_item_def
  toLowerCase_def ascii_lower_def list_marker_re_def artifact_re_def paragraphs_def
  paragraph_re_def array_match_def array_re_def text_lines_def ordinal_re_def
  quote_edge_re_def trailing_comma_re_def parse_elems.simps parse_members.simps

section \<open>Facts about the string operations and the parser\<close>

lemma set_greplace: "set (greplace r ci rep b s) \<subseteq> set s \<union> set rep"
proof (induction r ci rep b s rule: greplace.induct)
  case (1 r ci rep b)
  then show ?case by (auto split: option.splits)
next
  case (2 r ci rep b c cs)
  show ?case
  proof (cases "rmatch r ci (b, c # cs)")
    case None
    with 2 show ?thesis by auto
  next
    case (Some n)
    show ?thesis
    proof (cases n)
      case 0
      with Some 2 show ?thesis by auto
    next
      case (Suc m)
      with Some 2 have "set (greplace r ci rep False (drop m cs)) \<subseteq> set (drop m cs) \<union> set rep"
        by simp
      moreover have "set (drop m cs) \<subseteq> set cs" by (rule set_drop_subset)
      ultimately show ?thesis using Some Suc by auto
    qed
  qed
qed

lemma set_trim: "set (trim s) \<subseteq> set s"
proof -
  have "set (trim s) \<subseteq> set (rev (dropWhile is_space s))"
    unfolding trim_def by (metis set_dropWhileD set_rev subsetI)
  also have "\<dots> \<subseteq> set s" by (auto dest: set_dropWhileD)
  finally show ?thesis .
qed

lemma set_clean_fences: "set (clean_fences s) \<subseteq> set s"
proof -
  have "set (greplace fence_json_re True [] True s) \<subseteq> set s"
    using set_greplace[of fence_json_re True "[]" True s] by simp
  moreover have "set (greplace fence_re False [] True (greplace fence_json_re True [] True s))
      \<subseteq> set (greplace fence_json_re True [] True s)"
    using set_greplace[of fence_re False "[]" True] by simp
  ultimately show ?thesis
    unfolding clean_fences_def using set_trim by blast
qed

lemma indexOf_absent: "x \<notin> set s \<Longrightarrow> indexOf s x = -1"
  by (induction s) auto

lemma next_token_LBrack: "next_token s = Some (TLBrack, rest) \<Longrightarrow> \<exists>cs. s = 91 # cs"
  by (cases s) (auto simp: next_token_def split: if_splits option.splits)

lemma lex_LBrack: "lex s = Some (TLBrack # ts) \<Longrightarrow> 91 \<in> set s"
proof (induction s rule: lex.induct)
  case 1
  then show ?case by simp
next
  case (2 c cs)
  show ?case
  proof (cases "is_json_ws c")
    case True
    with 2 show ?thesis by simp
  next
    case False
    with "2.prems" obtain rest where "next_token (c # cs) = Some (TLBrack, rest)"
      by (auto split: option.splits)
    then show ?thesis using next_token_LBrack by fastforce
  qed
qed

lemma parse_value_array: "parse_value ts = Some (JArray xs, r) \<Longrightarrow> \<exists>ts'. ts = TLBrack # ts'"
  by (cases ts) (auto split: token.splits list.splits option.splits)

lemma JSON_parse_array_bracket: "JSON_parse s = Some (JArray xs) \<Longrightarrow> 91 \<in> set s"
proof -
  assume a: "JSON_parse s = Some (JArray xs)"
  then obtain ts where l: "lex s = Some ts" and p: "parse_value ts = Some (JArray xs, [])"
    by (auto simp: JSON_parse_def split: option.splits list.splits)
  from p obtain ts' where "ts = TLBrack # ts'" using parse_value_array by blast
  with l show ?thesis using lex_LBrack by blast
qed

lemma json_extraction_no_bracket:
  assumes "91 \<notin> set cleaned"
  shows "json_extraction cleaned = Fallthrough"
proof -
  have "set (fix_newlines cleaned) \<subseteq> set cleaned \<union> {92, 110}"
    unfolding fix_newlines_def using set_greplace[of newline_re False "[92, 110]" True cleaned] by simp
  with assms have "91 \<notin> set (fix_newlines cleaned)" by auto
  then have "\<And>xs. JSON_parse (fix_newlines cleaned) \<noteq> Some (JArray xs)"
    using JSON_parse_array_bracket by blast
  then have t: "try_fixed cleaned = Fallthrough"
    by (auto simp: try_fixed_def split: option.splits json.splits)
  from assms have "indexOf cleaned 91 = -1" by (rule indexOf_absent)
  with t show ?thesis by (simp add: json_extraction_def)
qed

lemma gsplit_no_match: "\<not> has_match r ci b s \<Longrightarrow> gsplit r ci b fresh s = [s]"
  by (induction s arbitrary: b fresh) auto

lemma split_re_no_match: "\<not> has_match r ci True s \<Longrightarrow> split_re r ci s = [s]"
  by (cases s) (auto simp: split_re_def gsplit_no_match)

lemma greplace_no_match: "\<not> has_match r ci b s \<Longrightarrow> greplace r ci rep b s = s"
  by (induction s arbitrary: b) auto


subsection \<open>Fence marks inside a JSON text\<close>

text \<open>
  The facts of this subsection show that removing the fence marks from a JSON text leaves
  a JSON text of the same shape: a mark can only stand inside a string literal, where
  every code unit of it is an ordinary character.
\<close>

text \<open>Two inputs agree on their first code unit, or are both empty.\<close>

fun same_head :: "jstring \<Rightarrow> jstring \<Rightarrow> bool" where
  "same_head [] [] = True"
| "same_head (a # as) (b # bs) = (a = b)"
| "same_head [] (b # bs) = False"
| "same_head (a # as) [] = False"

text \<open>A code unit that stands for itself inside a JSON string literal.\<close>

definition plain :: "nat \<Rightarrow> bool" where
  "plain c = (c \<noteq> 34 \<and> c \<noteq> 92 \<and> \<not> c < 32)"

text \<open>
  What the two fence replacements have in common: any code unit but the backtick is
  copied, and at a backtick either it is copied or a run of ordinary characters is
  dropped with it.
\<close>

definition fence_pass :: "(jstring \<Rightarrow> jstring) \<Rightarrow> bool" where
  "fence_pass f =
     (f [] = []
      \<and> (\<forall>c s. c \<noteq> 96 \<longrightarrow> f (c # s) = c # f s)
      \<and> (\<forall>s. f (96 # s) = 96 # f s
              \<or> (\<exists>n. n \<le> length s \<and> list_all plain (take n s) \<and> f (96 # s) = f (drop n s))))"

text \<open>The kind of a token: the token without the text of a string or a number.\<close>

definition tkind :: "'a token \<Rightarrow> unit token" where
  "tkind = map_token (\<lambda>x. ())"

text \<open>The literal pattern \<open>p\<close> matches at the start of the input.\<close>

fun lits_match :: "bool \<Rightarrow> jstring \<Rightarrow> jstring \<Rightarrow> bool" where
  "lits_match ci [] s = True"
| "lits_match ci (x # p) [] = False"
| "lits_match ci (x # p) (c # s) = ((if ci then canon c = canon x else c = x) \<and> lits_match ci p s)"

text \<open>The lexer reads a token from a prefix of the input, and looks at most one code unit
  beyond it.\<close>

lemma same_head_refl: "same_head a a"
  by (cases a) auto

lemma same_head_append: "same_head a b \<Longrightarrow> same_head (p @ a) (p @ b)"
  by (cases p) auto

lemma same_head_stop: "same_head d d' \<Longrightarrow> takeWhile P d = [] \<Longrightarrow> takeWhile P d' = []"
  by (cases d; cases d') (auto split: if_splits)

lemma tw_local:
  assumes "same_head (dropWhile P s) d'"
  shows "takeWhile P (takeWhile P s @ d') = takeWhile P s
       \<and> dropWhile P (takeWhile P s @ d') = d'"
proof -
  have a: "\<forall>x\<in>set (takeWhile P s). P x" by (auto dest: set_takeWhileD)
  have "takeWhile P (dropWhile P s) = []"
    by (metis dropWhile_eq_Nil_conv hd_dropWhile list.collapse takeWhile.simps(1) takeWhile.simps(2) takeWhile_eq_all_conv)
  with assms have b: "takeWhile P d' = []" using same_head_stop by blast
  then have c: "dropWhile P d' = d'"
    by (metis takeWhile_dropWhile_id append_Nil)
  from a b c show ?thesis by (simp add: takeWhile_append2 dropWhile_append2)
qed

lemma scan_int_local:
  assumes "scan_int s = Some (l, rest)"
  shows "s = l @ rest \<and> l \<noteq> [] \<and> 96 \<notin> set l
       \<and> (\<forall>rest'. same_head rest rest' \<longrightarrow> scan_int (l @ rest') = Some (l, rest'))"
proof (cases s)
  case Nil
  with assms show ?thesis by (simp add: scan_int_def)
next
  case (Cons c r)
  show ?thesis
  proof (cases "c = 48")
    case True
    with assms Cons show ?thesis by (auto simp: scan_int_def)
  next
    case False
    with assms Cons have d: "is_digit c" and l: "l = c # takeWhile is_digit r"
      and rest: "rest = dropWhile is_digit r"
      by (auto simp: scan_int_def split: if_splits)
    have "96 \<notin> set (takeWhile is_digit r)"
      by (auto dest!: set_takeWhileD simp: is_digit_def)
    moreover have "c \<noteq> 96" using d by (auto simp: is_digit_def)
    ultimately show ?thesis
      using Cons False d l rest tw_local[of is_digit r]
      by (auto simp: scan_int_def)
  qed
qed

lemma scan_frac_local:
  assumes "scan_frac s = Some (l, rest)"
  shows "s = l @ rest \<and> 96 \<notin> set l
       \<and> (\<forall>rest'. same_head rest rest' \<longrightarrow> scan_frac (l @ rest') = Some (l, rest'))"
proof (cases s)
  case Nil
  with assms show ?thesis by (auto simp: scan_frac_def split: list.splits elim!: same_head.elims)
next
  case (Cons c r)
  show ?thesis
  proof (cases "c = 46")
    case True
    with assms Cons have l: "l = c # takeWhile is_digit r" and rest: "rest = dropWhile is_digit r"
      and ne: "takeWhile is_digit r \<noteq> []"
      by (auto simp: scan_frac_def split: if_splits)
    have "96 \<notin> set (takeWhile is_digit r)"
      by (auto dest!: set_takeWhileD simp: is_digit_def)
    then show ?thesis
      using Cons True l rest ne tw_local[of is_digit r]
      by (auto simp: scan_frac_def)
  next
    case False
    with assms Cons have "l = []" "rest = s" by (auto simp: scan_frac_def)
    with Cons False show ?thesis
      by (auto simp: scan_frac_def split: list.splits elim!: same_head.elims)
  qed
qed

lemma scan_exp_local:
  assumes "scan_exp s = Some (l, rest)"
  shows "s = l @ rest \<and> 96 \<notin> set l
       \<and> (\<forall>rest'. same_head rest rest' \<longrightarrow> scan_exp (l @ rest') = Some (l, rest'))"
proof (cases s)
  case Nil
  with assms show ?thesis by (auto simp: scan_exp_def split: list.splits elim!: same_head.elims)
next
  case (Cons c r)
  show ?thesis
  proof (cases "c = 101 \<or> c = 69")
    case True
    obtain sg r' where sg: "scan_sign r = (sg, r')" by (cases "scan_sign r")
    define t where "t = takeWhile is_digit r'"
    from sg assms Cons True have l: "l = c # sg @ t" and rest: "rest = dropWhile is_digit r'"
      and ne: "t \<noteq> []"
      by (auto simp: scan_exp_def t_def split: if_splits)
    from sg have r: "r = sg @ r'" and sgc: "96 \<notin> set sg"
      by (auto simp: scan_sign_def split: list.splits if_splits)
    have sp: "r' = t @ rest" by (simp add: t_def rest)
    from ne obtain d ds where td: "t = d # ds" by (cases t) auto
    then have dd: "is_digit d" unfolding t_def by (metis list.set_intros(1) set_takeWhileD)
    have hd: "\<And>z. scan_sign (sg @ t @ z) = (sg, t @ z)"
      using sg dd td by (auto simp: scan_sign_def is_digit_def split: list.splits if_splits)
    have t96: "96 \<notin> set t"
      unfolding t_def by (auto dest!: set_takeWhileD simp: is_digit_def)
    show ?thesis
    proof (intro conjI allI impI)
      show "s = l @ rest" using Cons r sp l by simp
      show "96 \<notin> set l" using l True sgc t96 by auto
    next
      fix rest' assume sh: "same_head rest rest'"
      from tw_local[of is_digit r' rest'] sh rest
      have tw: "takeWhile is_digit (t @ rest') = t" "dropWhile is_digit (t @ rest') = rest'"
        by (simp_all add: t_def)
      have "scan_exp (c # sg @ t @ rest') = Some (c # sg @ t, rest')"
        using True hd[of rest'] tw ne by (simp add: scan_exp_def)
      then show "scan_exp (l @ rest') = Some (l, rest')" using l by simp
    qed
  next
    case False
    with assms Cons have "l = []" "rest = s" by (auto simp: scan_exp_def)
    with Cons False show ?thesis
      by (auto simp: scan_exp_def split: list.splits elim!: same_head.elims)
  qed
qed

lemma scan_number_local:
  assumes "scan_number s = Some (l, rest)"
  shows "s = l @ rest \<and> l \<noteq> [] \<and> 96 \<notin> set l
       \<and> (\<forall>rest'. same_head rest rest' \<longrightarrow> scan_number (l @ rest') = Some (l, rest'))"
proof -
  obtain sg s1 where sg: "(case s of [] \<Rightarrow> ([], s) | c # r \<Rightarrow> if c = 45 then ([c], r) else ([], s)) = (sg, s1)"
    by (cases "(case s of [] \<Rightarrow> ([]::jstring, s) | c # r \<Rightarrow> if c = 45 then ([c], r) else ([], s))") auto
  from assms sg obtain ip s2 fp s3 ep where
    i: "scan_int s1 = Some (ip, s2)" and f: "scan_frac s2 = Some (fp, s3)"
    and e: "scan_exp s3 = Some (ep, rest)" and l: "l = sg @ ip @ fp @ ep"
    by (auto simp: scan_number_def split: option.splits)
  note il = scan_int_local[OF i] and fl = scan_frac_local[OF f] and el = scan_exp_local[OF e]
  from sg have s: "s = sg @ s1" and sgc: "sg = [] \<or> sg = [45]"
    by (auto split: list.splits if_splits)
  have ip45: "hd ip \<noteq> 45" using i by (auto simp: scan_int_def is_digit_def split: list.splits if_splits)
  have sgl: "\<And>z. (case sg @ ip @ z of [] \<Rightarrow> ([], sg @ ip @ z) | c # r \<Rightarrow> if c = 45 then ([c], r) else ([], sg @ ip @ z))
      = (sg, ip @ z)"
    using sgc il ip45 by (cases ip) auto
  show ?thesis
  proof (intro conjI allI impI)
    show "s = l @ rest" using s il fl el l by simp
    show "l \<noteq> []" using il l by simp
    show "96 \<notin> set l" using l sgc il fl el by auto
  next
    fix rest' assume sh: "same_head rest rest'"
    from el sh have e': "scan_exp (ep @ rest') = Some (ep, rest')" by blast
    have "same_head s3 (ep @ rest')" using el sh same_head_append[of rest rest' ep] by simp
    with fl have f': "scan_frac (fp @ ep @ rest') = Some (fp, ep @ rest')" by blast
    have "same_head s2 (fp @ ep @ rest')"
      using fl el sh same_head_append[of rest rest' "fp @ ep"] by simp
    with il have i': "scan_int (ip @ fp @ ep @ rest') = Some (ip, fp @ ep @ rest')" by blast
    show "scan_number (l @ rest') = Some (l, rest')"
      using sgl[of "fp @ ep @ rest'"] i' f' e' l by (simp add: scan_number_def)
  qed
qed

lemma push_cu_eq: "push_cu c r = Some (a, rest) \<longleftrightarrow> (\<exists>a'. r = Some (a', rest) \<and> a = c # a')"
  by (auto simp: push_cu_def split: option.splits)

lemma scan_string_local:
  "scan_string s = Some (v, rest) \<Longrightarrow>
   \<exists>p. s = p @ rest \<and> (\<forall>r'. scan_string (p @ r') = Some (v, r'))"
proof (induction "length s" arbitrary: s v rule: less_induct)
  case less
  show ?case
  proof (cases s)
    case Nil
    with less.prems show ?thesis by simp
  next
    case (Cons c cs)
    note s = this
    show ?thesis
    proof (cases "c = 34")
      case True
      with less.prems s have "v = []" "rest = cs" by simp_all
      with True s show ?thesis by (intro exI[of _ "[34]"]) simp
    next
      case c34: False
      show ?thesis
      proof (cases "c = 92")
        case True
        then obtain e r where cs: "cs = e # r"
          using less.prems s by (cases cs) auto
        show ?thesis
        proof (cases "e = 117")
          case e117: True
          then obtain h1 h2 h3 h4 r' where r: "r = h1 # h2 # h3 # h4 # r'"
            using less.prems True cs s by (auto split: list.splits)
          from less.prems True cs e117 r s obtain x v0 where
            hx: "(case (hexv h1, hexv h2, hexv h3, hexv h4) of
                    (Some a, Some b, Some c', Some d) \<Rightarrow> Some (((a * 16 + b) * 16 + c') * 16 + d)
                  | _ \<Rightarrow> None) = Some x"
            and p: "scan_string r' = Some (v0, rest)" and v: "v = x # v0"
            by (auto simp: push_cu_eq split: option.splits)
          from less.hyps[of r' v0] p s cs r obtain p' where
            p': "r' = p' @ rest" "\<And>z. scan_string (p' @ z) = Some (v0, z)" by auto
          have "\<And>z. scan_string ((92 # 117 # h1 # h2 # h3 # h4 # p') @ z) = Some (v, z)"
            using hx p'(2) v by (auto simp: push_cu_def split: option.splits)
          with p'(1) s cs r True e117 show ?thesis
            by (intro exI[of _ "92 # 117 # h1 # h2 # h3 # h4 # p'"]) simp
        next
          case e117: False
          from less.prems True cs e117 s obtain x v0 where
            u: "unescape e = Some x" and p: "scan_string r = Some (v0, rest)" and v: "v = x # v0"
            by (auto simp: push_cu_eq split: option.splits)
          from less.hyps[of r v0] p s cs obtain p' where
            p': "r = p' @ rest" "\<And>z. scan_string (p' @ z) = Some (v0, z)" by auto
          have "\<And>z. scan_string ((92 # e # p') @ z) = Some (v, z)"
            using u p'(2) v e117 by (simp add: push_cu_def)
          with p'(1) s cs True show ?thesis
            by (intro exI[of _ "92 # e # p'"]) simp
        qed
      next
        case c92: False
        with less.prems c34 s obtain v0 where c32: "\<not> c < 32"
          and p: "scan_string cs = Some (v0, rest)" and v: "v = c # v0"
          by (auto simp: push_cu_eq split: if_splits)
        from less.hyps[of cs v0] p s obtain p' where
          p': "cs = p' @ rest" "\<And>z. scan_string (p' @ z) = Some (v0, z)" by auto
        have "\<And>z. scan_string ((c # p') @ z) = Some (v, z)"
          using c34 c92 c32 p'(2) v by (simp add: push_cu_def)
        with p'(1) s show ?thesis
          by (intro exI[of _ "c # p'"]) simp
      qed
    qed
  qed
qed

lemma starts_with_split: "starts_with s p \<Longrightarrow> s = p @ drop (length p) s"
  by (metis append_take_drop_id starts_with_def)

lemma next_token_local:
  assumes "next_token s = Some (t, rest)"
  shows "\<exists>p. s = p @ rest \<and> p \<noteq> [] \<and> \<not> is_json_ws (hd p) \<and> hd p \<noteq> 96
           \<and> ((\<exists>v. t = TStr v) \<or> 96 \<notin> set p)
           \<and> (\<forall>rest'. same_head rest rest' \<longrightarrow> next_token (p @ rest') = Some (t, rest'))"
proof (cases s)
  case Nil
  with assms show ?thesis by (simp add: next_token_def)
next
  case (Cons c cs)
  note s = this
  consider (punct) "c \<in> {91, 93, 123, 125, 44, 58}"
    | (string) "c = 34"
    | (number) "c = 45 \<or> is_digit c"
    | (other) "c \<notin> {91, 93, 123, 125, 44, 58}" "c \<noteq> 34" "\<not> (c = 45 \<or> is_digit c)"
    by blast
  then show ?thesis
  proof cases
    case punct
    with assms s have "rest = cs" by (auto simp: next_token_def)
    with punct assms s show ?thesis
      by (intro exI[of _ "[c]"]) (auto simp: next_token_def is_json_ws_def)
  next
    case string
    with assms s obtain v where sc: "scan_string cs = Some (v, rest)" and t: "t = TStr v"
      by (auto simp: next_token_def split: option.splits)
    from scan_string_local[OF sc] obtain p where
      p: "cs = p @ rest" "\<And>z. scan_string (p @ z) = Some (v, z)" by auto
    with string s t show ?thesis
      by (intro exI[of _ "34 # p"]) (auto simp: next_token_def is_json_ws_def)
  next
    case number
    with assms s obtain n where sc: "scan_number s = Some (n, rest)" and t: "t = TNum n"
      by (auto simp: next_token_def is_digit_def split: option.splits if_splits)
    note nl = scan_number_local[OF sc]
    from nl s have hn: "hd n = c" by (cases n) auto
    have c: "\<not> is_json_ws c" "c \<noteq> 96" "c \<notin> {91, 93, 123, 125, 44, 58}" "c \<noteq> 34"
      using number by (auto simp: is_json_ws_def is_digit_def)
    have "\<And>rest'. same_head rest rest' \<Longrightarrow> next_token (n @ rest') = Some (t, rest')"
    proof -
      fix rest' assume "same_head rest rest'"
      with nl have "scan_number (n @ rest') = Some (n, rest')" by blast
      moreover from nl hn obtain n' where "n = c # n'" by (cases n) auto
      ultimately show "next_token (n @ rest') = Some (t, rest')"
        using number c t by (auto simp: next_token_def)
    qed
    with nl hn c show ?thesis by (intro exI[of _ n]) auto
  next
    case other
    from other assms s consider
      (t) "starts_with s (str ''true'')" "t = TTrue" "rest = drop 4 s"
      | (f) "starts_with s (str ''false'')" "t = TFalse" "rest = drop 5 s"
      | (n) "starts_with s (str ''null'')" "t = TNull" "rest = drop 4 s"
      by (auto simp: next_token_def split: if_splits)
    then show ?thesis
    proof cases
      case t
      then have "s = str ''true'' @ rest"
        using starts_with_split[of s "str ''true''"] by (simp add: str_def eval_nat_numeral)
      moreover have "\<And>z. next_token (str ''true'' @ z) = Some (TTrue, z)"
        by (simp add: next_token_def starts_with_def str_def is_digit_def)
      ultimately show ?thesis using t
        by (intro exI[of _ "str ''true''"]) (simp add: str_def is_json_ws_def)
    next
      case f
      then have "s = str ''false'' @ rest"
        using starts_with_split[of s "str ''false''"] by (simp add: str_def eval_nat_numeral)
      moreover have "\<And>z. next_token (str ''false'' @ z) = Some (TFalse, z)"
        by (simp add: next_token_def starts_with_def str_def is_digit_def)
      ultimately show ?thesis using f
        by (intro exI[of _ "str ''false''"]) (simp add: str_def is_json_ws_def)
    next
      case n
      then have "s = str ''null'' @ rest"
        using starts_with_split[of s "str ''null''"] by (simp add: str_def eval_nat_numeral)
      moreover have "\<And>z. next_token (str ''null'' @ z) = Some (TNull, z)"
        by (simp add: next_token_def starts_with_def str_def is_digit_def)
      ultimately show ?thesis using n
        by (intro exI[of _ "str ''null''"]) (simp add: str_def is_json_ws_def)
    qed
  qed
qed

text \<open>A fence replacement maps a JSON text to a text with the same kinds of tokens.\<close>

lemma pass_prefix: "fence_pass f \<Longrightarrow> 96 \<notin> set p \<Longrightarrow> f (p @ r) = p @ f r"
  by (induction p) (auto simp: fence_pass_def)

lemma scan_plain:
  "list_all plain p \<Longrightarrow>
   scan_string (p @ r) = (case scan_string r of None \<Rightarrow> None | Some (a, rest) \<Rightarrow> Some (p @ a, rest))"
  by (induction p) (auto simp: plain_def push_cu_def split: option.splits)

lemma hexv_96: "hexv h = Some a \<Longrightarrow> h \<noteq> 96"
  by (auto simp: hexv_def split: if_splits)

lemma unescape_96: "unescape e = Some x \<Longrightarrow> e \<noteq> 96"
  by (auto simp: unescape_def split: if_splits)

lemma scan_string_pass:
  assumes fp: "fence_pass f"
  shows "scan_string s = Some (v, rest) \<Longrightarrow> \<exists>v'. scan_string (f s) = Some (v', f rest)"
proof (induction "length s" arbitrary: s v rule: less_induct)
  case less
  from fp have f2: "\<And>c s. c \<noteq> 96 \<Longrightarrow> f (c # s) = c # f s" by (simp add: fence_pass_def)
  show ?case
  proof (cases s)
    case Nil
    with less.prems show ?thesis by simp
  next
    case (Cons c cs)
    note s = this
    show ?thesis
    proof (cases "c = 34")
      case True
      with less.prems s have "rest = cs" by simp
      with True s f2 show ?thesis by simp
    next
      case c34: False
      show ?thesis
      proof (cases "c = 92")
        case True
        then obtain e r where cs: "cs = e # r"
          using less.prems s by (cases cs) auto
        show ?thesis
        proof (cases "e = 117")
          case e117: True
          then obtain h1 h2 h3 h4 r' where r: "r = h1 # h2 # h3 # h4 # r'"
            using less.prems True cs s by (auto split: list.splits)
          from less.prems True cs e117 r s obtain a b c' d v0 where
            h: "hexv h1 = Some a" "hexv h2 = Some b" "hexv h3 = Some c'" "hexv h4 = Some d"
            and p: "scan_string r' = Some (v0, rest)"
            by (auto simp: push_cu_eq split: option.splits)
          from less.hyps[of r' v0] p s cs r obtain v' where
            v': "scan_string (f r') = Some (v', f rest)" by auto
          have "f s = 92 # 117 # h1 # h2 # h3 # h4 # f r'"
            using s cs r True e117 h f2 by (simp add: hexv_96)
          with h v' show ?thesis by (simp add: push_cu_def)
        next
          case e117: False
          from less.prems True cs e117 s obtain x v0 where
            u: "unescape e = Some x" and p: "scan_string r = Some (v0, rest)"
            by (auto simp: push_cu_eq split: option.splits)
          from less.hyps[of r v0] p s cs obtain v' where
            v': "scan_string (f r) = Some (v', f rest)" by auto
          have "f s = 92 # e # f r"
            using s cs True u f2 by (simp add: unescape_96)
          with u v' e117 show ?thesis by (simp add: push_cu_def)
        qed
      next
        case c92: False
        with less.prems c34 s obtain v0 where c32: "\<not> c < 32"
          and p: "scan_string cs = Some (v0, rest)"
          by (auto simp: push_cu_eq split: if_splits)
        from less.hyps[of cs v0] p s obtain v' where
          v': "scan_string (f cs) = Some (v', f rest)" by auto
        have keep: "f s = c # f cs \<Longrightarrow> ?thesis"
          using c34 c92 c32 v' by (simp add: push_cu_def)
        show ?thesis
        proof (cases "c = 96")
          case False
          with f2 s keep show ?thesis by simp
        next
          case True
          from fp have "f (96 # cs) = 96 # f cs
              \<or> (\<exists>n. n \<le> length cs \<and> list_all plain (take n cs) \<and> f (96 # cs) = f (drop n cs))"
            by (simp add: fence_pass_def)
          then show ?thesis
          proof
            assume "f (96 # cs) = 96 # f cs"
            with True s keep show ?thesis by simp
          next
            assume "\<exists>n. n \<le> length cs \<and> list_all plain (take n cs) \<and> f (96 # cs) = f (drop n cs)"
            then obtain n where n: "n \<le> length cs" "list_all plain (take n cs)"
              "f (96 # cs) = f (drop n cs)" by blast
            have "scan_string (take n cs @ drop n cs) = Some (v0, rest)" using p by simp
            with scan_plain[OF n(2), of "drop n cs"] obtain v1 where
              "scan_string (drop n cs) = Some (v1, rest)"
              by (auto split: option.splits)
            moreover have "length (drop n cs) < length s" using s by simp
            ultimately obtain v'' where
              "scan_string (f (drop n cs)) = Some (v'', f rest)"
              using less.hyps[of "drop n cs" v1] by blast
            with n(3) True s show ?thesis by simp
          qed
        qed
      qed
    qed
  qed
qed

lemma next_token_96: "next_token (96 # s) = None"
  by (simp add: next_token_def starts_with_def str_def is_digit_def)

lemma lex_same_head:
  assumes "fence_pass f" and "lex rest = Some ts"
  shows "same_head rest (f rest)"
proof (cases rest)
  case Nil
  with assms show ?thesis by (simp add: fence_pass_def)
next
  case (Cons a r)
  have "a \<noteq> 96"
  proof
    assume "a = 96"
    with Cons assms(2) show False by (simp add: next_token_96 is_json_ws_def)
  qed
  with Cons assms(1) show ?thesis by (simp add: fence_pass_def)
qed

lemma lex_pass:
  assumes fp: "fence_pass f"
  shows "lex s = Some ts \<Longrightarrow> \<exists>ts'. lex (f s) = Some ts' \<and> map tkind ts' = map tkind ts"
proof (induction s arbitrary: ts rule: lex.induct)
  case 1
  with fp show ?case by (simp add: fence_pass_def)
next
  case (2 c cs)
  from fp have f2: "\<And>c s. c \<noteq> 96 \<Longrightarrow> f (c # s) = c # f s" by (simp add: fence_pass_def)
  show ?case
  proof (cases "is_json_ws c")
    case True
    then have "c \<noteq> 96" by (auto simp: is_json_ws_def)
    with True "2.prems" "2.IH"(1) f2 show ?thesis by simp
  next
    case False
    with "2.prems" obtain t rest ts1 where nt: "next_token (c # cs) = Some (t, rest)"
      and lr: "lex rest = Some ts1" and ts: "ts = t # ts1"
      by (auto split: option.splits)
    from "2.IH"(2)[OF False nt refl lr] obtain ts1' where
      ih: "lex (f rest) = Some ts1'" "map tkind ts1' = map tkind ts1" by blast
    from next_token_local[OF nt] obtain p where p: "c # cs = p @ rest" "p \<noteq> []"
      "(\<exists>v. t = TStr v) \<or> 96 \<notin> set p"
      "\<And>rest'. same_head rest rest' \<Longrightarrow> next_token (p @ rest') = Some (t, rest')" by blast
    have c96: "c \<noteq> 96" using nt next_token_96 by (cases "c = 96") auto
    show ?thesis
    proof (cases "\<exists>v. t = TStr v")
      case True
      then obtain v where t: "t = TStr v" by blast
      with nt have c: "c = 34" and sc: "scan_string cs = Some (v, rest)"
        by (auto simp: next_token_def split: if_splits option.splits)
      from scan_string_pass[OF fp sc] obtain v' where "scan_string (f cs) = Some (v', f rest)" by blast
      then have "next_token (34 # f cs) = Some (TStr v', f rest)"
        by (simp add: next_token_def)
      with c f2 ih ts t show ?thesis
        by (simp add: is_json_ws_def tkind_def)
    next
      case False
      with p(3) have "96 \<notin> set p" by blast
      with pass_prefix[OF fp] p(1) have fs: "f (c # cs) = p @ f rest" by metis
      from p(1,2) obtain p' where pc: "p = c # p'" by (cases p) auto
      have "next_token (p @ f rest) = Some (t, f rest)"
        using p(4) lex_same_head[OF fp lr] by blast
      with fs pc ih ts \<open>\<not> is_json_ws c\<close> show ?thesis by simp
    qed
  qed
qed

text \<open>
  The parser: what it consumes, the length test of its two list functions, and the fact
  that its control flow depends on the kinds of the tokens only.
\<close>

declare parse_elems.simps [simp del] parse_members.simps [simp del]

lemma pv_brack:
  "parse_value (TLBrack # ts) = Some (v, r) \<Longrightarrow>
   (ts = TRBrack # r \<and> v = JArray []) \<or> (\<exists>vs. parse_elems ts = Some (vs, r) \<and> v = JArray vs)"
  by (auto split: list.splits token.splits option.splits)

lemma pv_brace:
  "parse_value (TLBrace # ts) = Some (v, r) \<Longrightarrow>
   (ts = TRBrace # r \<and> v = JObject []) \<or> (\<exists>ms. parse_members ts = Some (ms, r) \<and> v = JObject ms)"
  by (auto split: list.splits token.splits option.splits)

lemma pv_atom:
  "parse_value (t # ts) = Some (v, r) \<Longrightarrow> t \<noteq> TLBrack \<Longrightarrow> t \<noteq> TLBrace \<Longrightarrow>
   r = ts \<and> (\<forall>xs. v \<noteq> JArray xs)"
  by (cases t) auto

lemma pe_unfold:
  "parse_elems ts = Some (vs, r1) \<Longrightarrow>
   \<exists>v r. parse_value ts = Some (v, r)
     \<and> ((\<exists>r' vs'. r = TComma # r' \<and> length r' < length ts \<and> parse_elems r' = Some (vs', r1))
        \<or> r = TRBrack # r1)"
  by (subst (asm) parse_elems.simps)
     (auto split: option.splits list.splits token.splits if_splits)

lemma pm_unfold:
  "parse_members ts = Some (ms, r2) \<Longrightarrow>
   \<exists>k ts' v r. ts = TStr k # TColon # ts' \<and> parse_value ts' = Some (v, r)
     \<and> ((\<exists>r' ms'. r = TComma # r' \<and> length r' < length ts \<and> parse_members r' = Some (ms', r2))
        \<or> r = TRBrace # r2)"
  by (subst (asm) parse_members.simps)
     (auto split: option.splits list.splits token.splits if_splits)

lemma parse_consumed_all:
  "(\<forall>v r. parse_value ts = Some (v, r) \<longrightarrow>
      (\<exists>c. ts = c @ r \<and> c \<noteq> [] \<and> (\<forall>xs. v = JArray xs \<longrightarrow> hd c = TLBrack \<and> last c = TRBrack)))
   \<and> (\<forall>vs r. parse_elems ts = Some (vs, r) \<longrightarrow> (\<exists>c. ts = c @ r \<and> c \<noteq> [] \<and> last c = TRBrack))
   \<and> (\<forall>ms r. parse_members ts = Some (ms, r) \<longrightarrow> (\<exists>c. ts = c @ r \<and> c \<noteq> []))"
proof (induction "length ts" arbitrary: ts rule: less_induct)
  case less
  have V: "\<exists>c. ts = c @ r \<and> c \<noteq> [] \<and> (\<forall>xs. v = JArray xs \<longrightarrow> hd c = TLBrack \<and> last c = TRBrack)"
    if a: "parse_value ts = Some (v, r)" for v r
  proof (cases ts)
    case Nil
    with a show ?thesis by simp
  next
    case (Cons t ts')
    have sm: "length ts' < length ts" using Cons by simp
    consider (brack) "t = TLBrack" | (brace) "t = TLBrace" | (atom) "t \<noteq> TLBrack" "t \<noteq> TLBrace"
      by blast
    then show ?thesis
    proof cases
      case brack
      from pv_brack a Cons brack consider
        (empty) "ts' = TRBrack # r" "v = JArray []"
        | (elems) vs where "parse_elems ts' = Some (vs, r)" "v = JArray vs"
        by blast
      then show ?thesis
      proof cases
        case empty
        with Cons brack show ?thesis by (intro exI[of _ "[TLBrack, TRBrack]"]) simp
      next
        case elems
        with less[OF sm] obtain c where "ts' = c @ r" "c \<noteq> []" "last c = TRBrack" by blast
        with Cons brack show ?thesis by (intro exI[of _ "TLBrack # c"]) simp
      qed
    next
      case brace
      from pv_brace a Cons brace consider
        (empty) "ts' = TRBrace # r" "v = JObject []"
        | (members) ms where "parse_members ts' = Some (ms, r)" "v = JObject ms"
        by blast
      then show ?thesis
      proof cases
        case empty
        with Cons brace show ?thesis by (intro exI[of _ "[TLBrace, TRBrace]"]) simp
      next
        case members
        with less[OF sm] obtain c where "ts' = c @ r" "c \<noteq> []" by blast
        with Cons brace members show ?thesis by (intro exI[of _ "TLBrace # c"]) simp
      qed
    next
      case atom
      with pv_atom a Cons have "r = ts'" "\<forall>xs. v \<noteq> JArray xs" by blast+
      with Cons show ?thesis by (intro exI[of _ "[t]"]) simp
    qed
  qed
  have E: "\<exists>c. ts = c @ r1 \<and> c \<noteq> [] \<and> last c = TRBrack"
    if a: "parse_elems ts = Some (vs, r1)" for vs r1
  proof -
    from pe_unfold[OF a] obtain v r where pv: "parse_value ts = Some (v, r)"
      and d: "(\<exists>r' vs'. r = TComma # r' \<and> length r' < length ts \<and> parse_elems r' = Some (vs', r1))
              \<or> r = TRBrack # r1" by blast
    from V[OF pv] obtain c where c: "ts = c @ r" "c \<noteq> []" by blast
    from d show ?thesis
    proof
      assume "\<exists>r' vs'. r = TComma # r' \<and> length r' < length ts \<and> parse_elems r' = Some (vs', r1)"
      then obtain r' vs' where r: "r = TComma # r'" "length r' < length ts"
        "parse_elems r' = Some (vs', r1)" by blast
      with less[OF r(2)] obtain c' where "r' = c' @ r1" "c' \<noteq> []" "last c' = TRBrack" by blast
      with c r show ?thesis by (intro exI[of _ "c @ TComma # c'"]) simp
    next
      assume "r = TRBrack # r1"
      with c show ?thesis by (intro exI[of _ "c @ [TRBrack]"]) simp
    qed
  qed
  have M: "\<exists>c. ts = c @ r2 \<and> c \<noteq> []"
    if a: "parse_members ts = Some (ms, r2)" for ms r2
  proof -
    from pm_unfold[OF a] obtain k ts' v r where ts: "ts = TStr k # TColon # ts'"
      and pv: "parse_value ts' = Some (v, r)"
      and d: "(\<exists>r' ms'. r = TComma # r' \<and> length r' < length ts \<and> parse_members r' = Some (ms', r2))
              \<or> r = TRBrace # r2" by blast
    have "length ts' < length ts" using ts by simp
    with less pv obtain c where c: "ts' = c @ r" "c \<noteq> []" by blast
    from d show ?thesis
    proof
      assume "\<exists>r' ms'. r = TComma # r' \<and> length r' < length ts \<and> parse_members r' = Some (ms', r2)"
      then obtain r' ms' where r: "r = TComma # r'" "length r' < length ts"
        "parse_members r' = Some (ms', r2)" by blast
      with less[OF r(2)] obtain c' where "r' = c' @ r2" "c' \<noteq> []" by blast
      with c r ts show ?thesis by (intro exI[of _ "TStr k # TColon # c @ TComma # c'"]) simp
    next
      assume "r = TRBrace # r2"
      with c ts show ?thesis by (intro exI[of _ "TStr k # TColon # c @ [TRBrace]"]) simp
    qed
  qed
  from V E M show ?case by blast
qed

lemma parse_value_shorter: "parse_value ts = Some (v, r) \<Longrightarrow> length r < length ts"
  using parse_consumed_all[of ts] by (metis length_append length_greater_0_conv less_add_same_cancel2)

lemma parse_array_tokens:
  assumes "parse_value ts = Some (JArray xs, [])"
  shows "\<exists>mid. ts = TLBrack # mid @ [TRBrack]"
proof -
  from parse_consumed_all[of ts] assms have h: "ts \<noteq> []" "hd ts = TLBrack" "last ts = TRBrack"
    by auto
  then obtain ts' where t: "ts = TLBrack # ts'" by (cases ts) auto
  with h(3) have "ts' \<noteq> []" by (cases ts') auto
  with t h(3) have "ts' = butlast ts' @ [TRBrack]"
    by (metis append_butlast_last_id last.simps)
  with t show ?thesis by metis
qed

lemma pv_brack_eq:
  "parse_value (TLBrack # ts) =
     (if ts \<noteq> [] \<and> hd ts = TRBrack then Some (JArray [], tl ts)
      else map_option (map_prod JArray id) (parse_elems ts))"
proof (cases ts)
  case Nil
  then show ?thesis by (simp add: parse_elems.simps[of "[]"])
next
  case (Cons t r)
  then show ?thesis by (cases "parse_elems (t # r)"; cases t) auto
qed

lemma pv_brace_eq:
  "parse_value (TLBrace # ts) =
     (if ts \<noteq> [] \<and> hd ts = TRBrace then Some (JObject [], tl ts)
      else map_option (map_prod JObject id) (parse_members ts))"
proof (cases ts)
  case Nil
  then show ?thesis by (simp add: parse_members.simps[of "[]"])
next
  case (Cons t r)
  then show ?thesis by (cases "parse_members (t # r)"; cases t) auto
qed

lemma pe_eq:
  "parse_elems ts =
     (case parse_value ts of
        None \<Rightarrow> None
      | Some (v, r) \<Rightarrow>
          if r \<noteq> [] \<and> hd r = TComma then map_option (map_prod (Cons v) id) (parse_elems (tl r))
          else if r \<noteq> [] \<and> hd r = TRBrack then Some ([v], tl r)
          else None)"
proof (cases "parse_value ts")
  case None
  then show ?thesis by (subst parse_elems.simps) simp
next
  case (Some a)
  obtain v r where a: "a = (v, r)" by (cases a)
  from Some a have "length r < length ts" by (auto dest: parse_value_shorter)
  then have "r \<noteq> [] \<Longrightarrow> length (tl r) < length ts" by (cases r) auto
  with Some a show ?thesis
    by (subst parse_elems.simps) (auto split: list.splits token.splits option.splits)
qed

lemma pm_eq:
  "parse_members (TStr k # TColon # ts) =
     (case parse_value ts of
        None \<Rightarrow> None
      | Some (v, r) \<Rightarrow>
          if r \<noteq> [] \<and> hd r = TComma then map_option (map_prod (Cons (k, v)) id) (parse_members (tl r))
          else if r \<noteq> [] \<and> hd r = TRBrace then Some ([(k, v)], tl r)
          else None)"
proof (cases "parse_value ts")
  case None
  then show ?thesis by (subst parse_members.simps) simp
next
  case (Some a)
  obtain v r where a: "a = (v, r)" by (cases a)
  from Some a have "length r < length ts" by (auto dest: parse_value_shorter)
  then have "r \<noteq> [] \<Longrightarrow> length (tl r) < Suc (Suc (length ts))" by (cases r) auto
  with Some a show ?thesis
    by (subst parse_members.simps) (auto split: list.splits token.splits option.splits)
qed

lemma pm_none: "\<not> (\<exists>k ts'. ts = TStr k # TColon # ts') \<Longrightarrow> parse_members ts = None"
  by (subst parse_members.simps) (auto split: list.splits token.splits)

lemma map_token_eq [simp]:
  "(map_token g t = TLBrack) = (t = TLBrack)"
  "(map_token g t = TRBrack) = (t = TRBrack)"
  "(map_token g t = TLBrace) = (t = TLBrace)"
  "(map_token g t = TRBrace) = (t = TRBrace)"
  "(map_token g t = TComma) = (t = TComma)"
  "(map_token g t = TColon) = (t = TColon)"
  by (cases t; simp)+

lemma members_shape_map:
  "(\<exists>k ts'. map (map_token g) ts = TStr k # TColon # ts') = (\<exists>k ts'. ts = TStr k # TColon # ts')"
proof (cases ts)
  case Nil
  then show ?thesis by simp
next
  case (Cons a as)
  show ?thesis
  proof (cases as)
    case Nil
    with Cons show ?thesis by simp
  next
    case (Cons b bs)
    with \<open>ts = a # as\<close> show ?thesis by (cases a; cases b) auto
  qed
qed

lemma parse_map_all:
  "parse_value (map (map_token g) ts)
     = map_option (map_prod (map_json g) (map (map_token g))) (parse_value ts)
   \<and> parse_elems (map (map_token g) ts)
     = map_option (map_prod (map (map_json g)) (map (map_token g))) (parse_elems ts)
   \<and> parse_members (map (map_token g) ts)
     = map_option (map_prod (map (map_prod g (map_json g))) (map (map_token g))) (parse_members ts)"
proof (induction "length ts" arbitrary: ts rule: less_induct)
  case less
  have V: "parse_value (map (map_token g) ts)
             = map_option (map_prod (map_json g) (map (map_token g))) (parse_value ts)"
  proof (cases ts)
    case Nil
    then show ?thesis by simp
  next
    case (Cons t ts')
    have sm: "length ts' < length ts" using Cons by simp
    note ih = less[OF sm]
    show ?thesis
    proof (cases t)
      case TLBrack
      have "parse_value (TLBrack # map (map_token g) ts')
              = map_option (map_prod (map_json g) (map (map_token g))) (parse_value (TLBrack # ts'))"
        unfolding pv_brack_eq using ih
        by (cases "parse_elems ts'") (auto simp: hd_map map_tl)
      with Cons TLBrack show ?thesis by simp
    next
      case TLBrace
      have "parse_value (TLBrace # map (map_token g) ts')
              = map_option (map_prod (map_json g) (map (map_token g))) (parse_value (TLBrace # ts'))"
        unfolding pv_brace_eq using ih
        by (cases "parse_members ts'") (auto simp: hd_map map_tl)
      with Cons TLBrace show ?thesis by simp
    qed (use Cons in simp_all)
  qed
  have E: "parse_elems (map (map_token g) ts)
             = map_option (map_prod (map (map_json g)) (map (map_token g))) (parse_elems ts)"
  proof (cases "parse_value ts")
    case None
    with V show ?thesis by (simp add: pe_eq[of ts] pe_eq[of "map (map_token g) ts"])
  next
    case (Some a)
    obtain v r where a: "a = (v, r)" by (cases a)
    from Some a have lr: "length r < length ts" by (auto dest: parse_value_shorter)
    show ?thesis
    proof (cases r)
      case Nil
      with V Some a show ?thesis by (simp add: pe_eq[of ts] pe_eq[of "map (map_token g) ts"])
    next
      case (Cons t r')
      with lr have "length r' < length ts" by simp
      note ih = less[OF this]
      from V Some a Cons ih show ?thesis
        by (cases "parse_elems r'")
           (auto simp: pe_eq[of ts] pe_eq[of "map (map_token g) ts"])
    qed
  qed
  have M: "parse_members (map (map_token g) ts)
             = map_option (map_prod (map (map_prod g (map_json g))) (map (map_token g))) (parse_members ts)"
  proof (cases "\<exists>k ts'. ts = TStr k # TColon # ts'")
    case False
    then have "\<not> (\<exists>k ts'. map (map_token g) ts = TStr k # TColon # ts')"
      by (simp add: members_shape_map)
    with False show ?thesis by (simp add: pm_none)
  next
    case True
    then obtain k ts' where ts: "ts = TStr k # TColon # ts'" by blast
    then have "length ts' < length ts" by simp
    note ihv = less[OF this]
    show ?thesis
    proof (cases "parse_value ts'")
      case None
      with ihv ts show ?thesis by (simp add: pm_eq)
    next
      case (Some a)
      obtain v r where a: "a = (v, r)" by (cases a)
      from Some a have lr: "length r < length ts'" by (auto dest: parse_value_shorter)
      show ?thesis
      proof (cases r)
        case Nil
        with ihv ts Some a show ?thesis by (simp add: pm_eq)
      next
        case (Cons t r')
        with lr ts have "length r' < length ts" by simp
        note ih = less[OF this]
        from ihv ts Some a Cons ih show ?thesis
          by (cases "parse_members r'") (auto simp: pm_eq)
      qed
    qed
  qed
  from V E M show ?case by blast
qed

lemma map_json_array: "map_json g v = JArray ys \<Longrightarrow> \<exists>xs. v = JArray xs"
  by (cases v) auto

lemma parse_kinds:
  fixes ts ts' :: "'a token list"
  assumes "map tkind ts' = map tkind ts" and "parse_value ts = Some (JArray xs, [])"
  shows "\<exists>xs'. parse_value ts' = Some (JArray xs', [])"
proof -
  let ?g = "\<lambda>x::'a. ()"
  let ?h = "\<lambda>x::'a. ()"
  have "parse_value (map (map_token ?h) ts') = parse_value (map (map_token ?g) ts)"
    using assms(1) by (simp add: tkind_def)
  then have "map_option (map_prod (map_json ?h) (map (map_token ?h))) (parse_value ts')
           = Some (map_json ?g (JArray xs), [])"
    using parse_map_all[of ?h ts'] parse_map_all[of ?g ts] assms(2) by simp
  then obtain v' r' where p: "parse_value ts' = Some (v', r')"
    and m: "map_json ?h v' = map_json ?g (JArray xs)" and r: "map (map_token ?h) r' = []"
    by auto
  from m obtain xs' where "v' = JArray xs'" using map_json_array[of ?h v'] by auto
  with p r show ?thesis by simp
qed

text \<open>A text that parses to an array is the array text from \<^verbatim>\<open>[\<close> to \<^verbatim>\<open>]\<close> between
  two runs of white space, so step 2 of the cascade returns the array.\<close>

lemma lex_nil: "lex s = Some [] \<Longrightarrow> list_all is_json_ws s"
proof (induction s rule: lex.induct)
  case 1
  then show ?case by simp
next
  case (2 c cs)
  then show ?case by (cases "is_json_ws c") (auto split: option.splits)
qed

lemma lex_ws_prefix: "list_all is_json_ws w \<Longrightarrow> lex (w @ s) = lex s"
  by (induction w) auto

lemma next_token_RBrack: "next_token s = Some (TRBrack, rest) \<Longrightarrow> s = 93 # rest"
  by (cases s) (auto simp: next_token_def split: if_splits option.splits)

lemma lex_front:
  "lex t = Some (TLBrack # ts) \<Longrightarrow>
   \<exists>w t1. t = w @ 91 # t1 \<and> list_all is_json_ws w \<and> lex (91 # t1) = Some (TLBrack # ts)"
proof (induction t rule: lex.induct)
  case 1
  then show ?case by simp
next
  case (2 c cs)
  show ?case
  proof (cases "is_json_ws c")
    case True
    with "2.prems" have "lex cs = Some (TLBrack # ts)" by simp
    from "2.IH"(1)[OF True this] obtain w t1 where
      "cs = w @ 91 # t1" "list_all is_json_ws w" "lex (91 # t1) = Some (TLBrack # ts)" by blast
    with True show ?thesis by (intro exI[of _ "c # w"] exI[of _ t1]) simp
  next
    case False
    with "2.prems" obtain rest where "next_token (c # cs) = Some (TLBrack, rest)"
      by (auto split: option.splits)
    then have "c = 91" using next_token_LBrack by fastforce
    with "2.prems" show ?thesis by (intro exI[of _ "[]"] exI[of _ cs]) simp
  qed
qed

lemma lex_back:
  "lex t = Some (ts @ [TRBrack]) \<Longrightarrow>
   \<exists>x w. t = x @ 93 # w \<and> list_all is_json_ws w \<and> lex (x @ [93]) = Some (ts @ [TRBrack])"
proof (induction t arbitrary: ts rule: lex.induct)
  case 1
  then show ?case by simp
next
  case (2 c cs)
  show ?case
  proof (cases "is_json_ws c")
    case True
    with "2.prems" have "lex cs = Some (ts @ [TRBrack])" by simp
    from "2.IH"(1)[OF True this] obtain x w where
      "cs = x @ 93 # w" "list_all is_json_ws w" "lex (x @ [93]) = Some (ts @ [TRBrack])" by blast
    with True show ?thesis by (intro exI[of _ "c # x"] exI[of _ w]) simp
  next
    case False
    with "2.prems" obtain tk rest ts1 where nt: "next_token (c # cs) = Some (tk, rest)"
      and lr: "lex rest = Some ts1" and ts: "ts @ [TRBrack] = tk # ts1"
      by (auto split: option.splits)
    show ?thesis
    proof (cases ts)
      case Nil
      with ts have tk: "tk = TRBrack" and "ts1 = []" by simp_all
      with lr have w: "list_all is_json_ws cs \<and> c = 93"
        using next_token_RBrack[of "c # cs" rest] nt lex_nil by auto
      have "lex [93] = Some [TRBrack]" by (simp add: next_token_def is_json_ws_def)
      with w Nil show ?thesis by (intro exI[of _ "[]"] exI[of _ cs]) simp
    next
      case (Cons t0 ts0)
      with ts have tk: "tk = t0" and ts1: "ts1 = ts0 @ [TRBrack]" by simp_all
      from lr ts1 have "lex rest = Some (ts0 @ [TRBrack])" by simp
      from "2.IH"(2)[OF False nt refl this] obtain x w where
        ih: "rest = x @ 93 # w" "list_all is_json_ws w" "lex (x @ [93]) = Some (ts0 @ [TRBrack])"
        by blast
      from next_token_local[OF nt] obtain p where p: "c # cs = p @ rest" "p \<noteq> []"
        "\<And>rest'. same_head rest rest' \<Longrightarrow> next_token (p @ rest') = Some (tk, rest')" by blast
      have "same_head rest (x @ [93])" using ih(1) by (cases x) simp_all
      then have n: "next_token (p @ x @ [93]) = Some (tk, x @ [93])" using p(3) by blast
      from p(1,2) obtain p' where pc: "p = c # p'" by (cases p) auto
      from n pc ih(3) False tk Cons have "lex ((p @ x) @ [93]) = Some (ts @ [TRBrack])" by simp
      with p(1) ih(1,2) show ?thesis by (intro exI[of _ "p @ x"] exI[of _ w]) simp
    qed
  qed
qed

lemma json_array_shape:
  assumes "JSON_parse t = Some (JArray xs)"
  shows "\<exists>w1 x w2. t = w1 @ (91 # x @ [93]) @ w2 \<and> list_all is_json_ws w1 \<and> list_all is_json_ws w2
           \<and> JSON_parse (91 # x @ [93]) = Some (JArray xs)"
proof -
  from assms obtain ts where l: "lex t = Some ts" and pv: "parse_value ts = Some (JArray xs, [])"
    by (auto simp: JSON_parse_def split: option.splits list.splits)
  from parse_array_tokens[OF pv] obtain mid where ts: "ts = TLBrack # mid @ [TRBrack]" by blast
  from lex_front[of t "mid @ [TRBrack]"] l ts obtain w1 t1 where
    f: "t = w1 @ 91 # t1" "list_all is_json_ws w1" "lex (91 # t1) = Some ts" by auto
  from lex_back[of "91 # t1" "TLBrack # mid"] f(3) ts obtain y w2 where
    b: "91 # t1 = y @ 93 # w2" "list_all is_json_ws w2" "lex (y @ [93]) = Some ts" by auto
  from b(1) obtain x where y: "y = 91 # x" by (cases y) auto
  from b(3) y pv have "JSON_parse (91 # x @ [93]) = Some (JArray xs)"
    by (simp add: JSON_parse_def)
  with f(1,2) b(1,2) y show ?thesis
    by (intro exI[of _ w1] exI[of _ x] exI[of _ w2]) simp
qed

lemma json_ws_space: "is_json_ws c \<Longrightarrow> is_space c"
  by (auto simp: is_json_ws_def is_space_def)

lemma trim_pad:
  assumes "list_all is_space w1" and "list_all is_space w2"
  shows "trim (w1 @ x @ w2) = trim x"
proof -
  from assms(1) have a: "dropWhile is_space (w1 @ x @ w2) = dropWhile is_space (x @ w2)"
    by (simp add: dropWhile_append2 list_all_iff)
  show ?thesis
  proof (cases "list_all is_space x")
    case True
    with assms(2) have e: "dropWhile is_space (x @ w2) = []" "dropWhile is_space x = []"
      by (simp_all add: list_all_iff)
    show ?thesis unfolding trim_def a e by simp
  next
    case False
    then have e: "dropWhile is_space (x @ w2) = dropWhile is_space x @ w2"
      by (auto simp: list_all_iff dropWhile_append1)
    from assms(2) have "\<And>c. c \<in> set (rev w2) \<Longrightarrow> is_space c"
      by (simp add: list_all_iff)
    then have "dropWhile is_space (rev w2 @ rev (dropWhile is_space x))
        = dropWhile is_space (rev (dropWhile is_space x))"
      by (rule dropWhile_append2)
    then show ?thesis unfolding trim_def a e by simp
  qed
qed

lemma trim_id: "b \<noteq> [] \<Longrightarrow> \<not> is_space (hd b) \<Longrightarrow> \<not> is_space (last b) \<Longrightarrow> trim b = b"
proof -
  assume b: "b \<noteq> []" "\<not> is_space (hd b)" "\<not> is_space (last b)"
  then have "dropWhile is_space b = b" by (cases b) auto
  moreover from b have "dropWhile is_space (rev b) = rev b"
    by (cases "rev b") (auto simp: hd_rev dest: arg_cong[where f = hd])
  ultimately show ?thesis by (simp add: trim_def)
qed

lemma lastIndexOf_snoc: "lastIndexOf (y @ [c]) c = int (length y)"
  by (induction y) (auto simp: Let_def)

lemma json_extraction_body:
  assumes "JSON_parse (91 # x @ [93]) = Some (JArray xs)"
  shows "json_extraction (91 # x @ [93]) = Returned xs"
proof -
  have l: "lastIndexOf (91 # x @ [93]) 93 = int (length x) + 1"
    using lastIndexOf_snoc[of "91 # x" 93] by simp
  have s: "substring (91 # x @ [93]) 0 (int (length x) + 1 + 1) = 91 # x @ [93]"
    by (simp add: substring_def nat_add_distrib)
  show ?thesis
    unfolding json_extraction_def Let_def using assms l s by simp
qed

lemma json_extraction_array:
  assumes "JSON_parse t = Some (JArray xs)"
  shows "json_extraction (trim t) = Returned xs"
proof -
  from json_array_shape[OF assms] obtain w1 x w2 where
    t: "t = w1 @ (91 # x @ [93]) @ w2" and w: "list_all is_json_ws w1" "list_all is_json_ws w2"
    and p: "JSON_parse (91 # x @ [93]) = Some (JArray xs)" by blast
  from w have "list_all is_space w1" "list_all is_space w2"
    by (auto simp: list_all_iff json_ws_space)
  then have "trim t = trim (91 # x @ [93])" unfolding t by (rule trim_pad)
  also have "\<dots> = 91 # x @ [93]" by (rule trim_id) (simp_all add: is_space_def)
  finally show ?thesis using json_extraction_body[OF p] by simp
qed

text \<open>The replacement of a literal pattern, and the two fence replacements on a wrapped text.\<close>

lemma ends_lits:
  "p \<noteq> [] \<Longrightarrow>
   ends (lits p) ci (b, s) = (if lits_match ci p s then [(False, drop (length p) s)] else [])"
proof (induction p arbitrary: b s rule: lits.induct)
  case 1
  then show ?case by simp
next
  case (2 c)
  show ?case by (cases s) simp_all
next
  case (3 c v va)
  show ?case
  proof (cases s)
    case Nil
    then show ?thesis by simp
  next
    case (Cons a as)
    with "3.IH"[of False as] show ?thesis by (cases ci) simp_all
  qed
qed

lemma lits_match_length: "lits_match ci p s \<Longrightarrow> length p \<le> length s"
  by (induction ci p s rule: lits_match.induct) auto

lemma rmatch_lits:
  "p \<noteq> [] \<Longrightarrow> rmatch (lits p) ci (b, s) = (if lits_match ci p s then Some (length p) else None)"
  using lits_match_length[of ci p s] by (simp add: rmatch_def ends_lits)

lemma rmatch_lits_no: "p \<noteq> [] \<Longrightarrow> \<not> lits_match ci p s \<Longrightarrow> rmatch (lits p) ci (b, s) = None"
  by (simp add: rmatch_lits)

lemma rmatch_lits_yes:
  "lits_match ci (x # p') s \<Longrightarrow> rmatch (lits (x # p')) ci (b, s) = Some (Suc (length p'))"
  using rmatch_lits[of "x # p'" ci b s] by (simp del: lits_match.simps)

lemma greplace_no:
  "rmatch r ci (b, c # cs) = None \<Longrightarrow> greplace r ci rep b (c # cs) = c # greplace r ci rep False cs"
  by simp

lemma greplace_yes:
  "rmatch r ci (b, c # cs) = Some (Suc n) \<Longrightarrow>
   greplace r ci rep b (c # cs) = rep @ greplace r ci rep False (drop n cs)"
  by simp

lemma greplace_nil: "greplace r ci [] b [] = []"
  by (cases "rmatch r ci (b, [])") simp_all

lemma greplace_lits_flag:
  "p \<noteq> [] \<Longrightarrow> greplace (lits p) ci rep b s = greplace (lits p) ci rep False s"
  by (cases s) (simp_all add: rmatch_lits)

lemma canon_plain: "plain x \<Longrightarrow> canon c = canon x \<Longrightarrow> plain c"
  by (auto simp: plain_def canon_def split: if_splits)

lemma lits_match_plain:
  "lits_match ci p s \<Longrightarrow> list_all plain p \<Longrightarrow> list_all plain (take (length p) s)"
proof (induction ci p s rule: lits_match.induct)
  case (3 ci x p c s)
  from "3.prems" have m: "lits_match ci p s" and pp: "list_all plain p" and px: "plain x"
    by simp_all
  from "3.prems"(1) px have "plain c" using canon_plain[of x c] by (cases ci) simp_all
  with "3.IH"[OF m pp] show ?case by simp
qed simp_all

lemma canon_96: "canon c = canon 96 \<Longrightarrow> c = 96"
  by (auto simp: canon_def split: if_splits)

lemma fence_pass_lits:
  assumes "list_all plain p'"
  shows "fence_pass (greplace (lits (96 # p')) ci [] b)"
proof -
  let ?p = "96 # p'"
  let ?g = "greplace (lits ?p) ci []"
  have fl: "\<And>b s. ?g b s = ?g False s" by (rule greplace_lits_flag) simp
  have a: "?g b [] = []" by (rule greplace_nil)
  have c: "?g b (c # s) = c # ?g b s" if "c \<noteq> 96" for c s
  proof -
    from that have "\<not> lits_match ci ?p (c # s)" by (auto dest: canon_96)
    then have "rmatch (lits ?p) ci (b, c # s) = None" by (intro rmatch_lits_no) simp_all
    then have "?g b (c # s) = c # ?g False s" by (rule greplace_no)
    from this fl[of b s] show ?thesis by (simp only:)
  qed
  have d: "?g b (96 # s) = 96 # ?g b s
           \<or> (\<exists>n. n \<le> length s \<and> list_all plain (take n s) \<and> ?g b (96 # s) = ?g b (drop n s))" for s
  proof (cases "lits_match ci ?p (96 # s)")
    case True
    then have m: "lits_match ci p' s" by simp
    from True have "rmatch (lits ?p) ci (b, 96 # s) = Some (Suc (length p'))"
      by (rule rmatch_lits_yes)
    then have "?g b (96 # s) = [] @ ?g False (drop (length p') s)" by (rule greplace_yes)
    with fl[of b "drop (length p') s"] have "?g b (96 # s) = ?g b (drop (length p') s)"
      by (simp only: append_Nil)
    with lits_match_length[OF m] lits_match_plain[OF m assms] show ?thesis by blast
  next
    case False
    then have "rmatch (lits ?p) ci (b, 96 # s) = None" by (intro rmatch_lits_no) simp_all
    then have "?g b (96 # s) = 96 # ?g False s" by (rule greplace_no)
    from this fl[of b s] have "?g b (96 # s) = 96 # ?g b s" by (simp only:)
    then show ?thesis by (rule disjI1)
  qed
  show ?thesis
    unfolding fence_pass_def
  proof (intro conjI allI impI)
    show "?g b [] = []" by (rule a)
  next
    fix c s
    assume "c \<noteq> (96::nat)"
    then show "?g b (c # s) = c # ?g b s" by (rule c)
  next
    fix s
    show "?g b (96 # s) = 96 # ?g b s
           \<or> (\<exists>n. n \<le> length s \<and> list_all plain (take n s) \<and> ?g b (96 # s) = ?g b (drop n s))"
      by (rule d)
  qed
qed

lemma lits_match_sep:
  "\<forall>x\<in>set p. \<not> (if ci then canon z = canon x else z = x) \<Longrightarrow>
   lits_match ci p (u @ z # y) = lits_match ci p u"
proof (induction p arbitrary: u)
  case Nil
  then show ?case by simp
next
  case (Cons x p)
  then show ?case by (cases u) auto
qed

lemma greplace_sep:
  assumes "p \<noteq> []" and "\<forall>x\<in>set p. \<not> (if ci then canon z = canon x else z = x)"
  shows "greplace (lits p) ci [] False (u @ z # y)
           = greplace (lits p) ci [] False u @ z # greplace (lits p) ci [] False y"
proof (induction "length u" arbitrary: u rule: less_induct)
  case less
  let ?g = "greplace (lits p) ci [] False"
  from assms(1) obtain x p' where p: "p = x # p'" by (cases p) auto
  show ?case
  proof (cases u)
    case Nil
    from assms(2) p have "\<not> lits_match ci p (z # y)" by auto
    with Nil assms(1) show ?thesis by (simp add: rmatch_lits)
  next
    case (Cons c u')
    have eq: "lits_match ci p ((c # u') @ z # y) = lits_match ci p (c # u')"
      using assms(2) by (rule lits_match_sep)
    show ?thesis
    proof (cases "lits_match ci p (c # u')")
      case True
      with p have "length p' \<le> length u'" using lits_match_length[of ci p "c # u'"] by simp
      then have dr: "drop (length p') (u' @ z # y) = drop (length p') u' @ z # y" by simp
      have "length (drop (length p') u') < length u" using Cons by simp
      from less[OF this] True eq p Cons dr show ?thesis
        by (simp add: rmatch_lits)
    next
      case False
      have "length u' < length u" using Cons by simp
      from less[OF this] False eq Cons assms(1) show ?thesis
        by (simp add: rmatch_lits)
    qed
  qed
qed

lemma fence_json_re_lits: "fence_json_re = lits [96, 96, 96, 106, 115, 111, 110]"
  by (simp add: fence_json_re_def str_def del: lits.simps)

lemma fence_re_lits: "fence_re = lits [96, 96, 96]"
  by (simp add: fence_re_def str_def del: lits.simps)

lemma fence_pass_json: "fence_pass (greplace fence_json_re True [] True)"
  unfolding fence_json_re_lits by (rule fence_pass_lits) (simp add: plain_def)

lemma fence_pass_plain: "fence_pass (greplace fence_re False [] True)"
  unfolding fence_re_lits by (rule fence_pass_lits) (simp add: plain_def)

lemma lits_match_self: "lits_match ci p (p @ r)"
  by (induction p) auto

lemma greplace_lits_prefix:
  assumes "p \<noteq> []"
  shows "greplace (lits p) ci rep b (p @ r) = rep @ greplace (lits p) ci rep b r"
proof -
  from assms obtain x p' where p: "p = x # p'" by (cases p) auto
  have "lits_match ci (x # p') (x # p' @ r)" using lits_match_self[of ci "x # p'" r] by simp
  then have "rmatch (lits (x # p')) ci (b, x # p' @ r) = Some (Suc (length p'))"
    by (rule rmatch_lits_yes)
  then have "greplace (lits (x # p')) ci rep b (x # p' @ r)
               = rep @ greplace (lits (x # p')) ci rep False (drop (length p') (p' @ r))"
    by (rule greplace_yes)
  then show ?thesis
    using greplace_lits_flag[of p ci rep b r] p by simp
qed

lemma greplace_lits_short:
  assumes "p \<noteq> []"
  shows "length s < length p \<Longrightarrow> greplace (lits p) ci [] b s = s"
proof (induction s arbitrary: b)
  case Nil
  show ?case by (rule greplace_nil)
next
  case (Cons c cs)
  then have "\<not> lits_match ci p (c # cs)" using lits_match_length[of ci p "c # cs"] by auto
  then have "rmatch (lits p) ci (b, c # cs) = None" using assms by (intro rmatch_lits_no)
  then have "greplace (lits p) ci [] b (c # cs) = c # greplace (lits p) ci [] False cs"
    by (rule greplace_no)
  with Cons show ?case by simp
qed

lemma space_96: "list_all is_space w \<Longrightarrow> 96 \<notin> set w"
  by (auto simp: list_all_iff is_space_def)

lemma pass_wrapped:
  assumes fp: "fence_pass (greplace (lits p) ci [] True)" and p: "p \<noteq> []"
    and sep: "\<forall>x\<in>set p. \<not> (if ci then canon z = canon x else z = x)"
    and w: "list_all is_space w1" "list_all is_space w2"
  shows "greplace (lits p) ci [] True (w1 @ (u @ [z]) @ w2 @ t)
           = w1 @ greplace (lits p) ci [] True (u @ [z]) @ w2 @ greplace (lits p) ci [] True t"
proof -
  let ?f = "greplace (lits p) ci [] True"
  let ?g = "greplace (lits p) ci [] False"
  have fl: "\<And>s. ?f s = ?g s" using p by (rule greplace_lits_flag)
  have e: "?g [] = []" by (rule greplace_nil)
  have "?f (w1 @ (u @ [z]) @ w2 @ t) = w1 @ ?f ((u @ [z]) @ w2 @ t)"
    using pass_prefix[OF fp space_96[OF w(1)]] by blast
  also have "?f ((u @ [z]) @ w2 @ t) = ?g u @ z # ?g (w2 @ t)"
    using greplace_sep[OF p sep, of u "w2 @ t"] fl by simp
  also have "?g (w2 @ t) = w2 @ ?f t"
    using pass_prefix[OF fp space_96[OF w(2)], of t] fl by simp
  also have "?g u @ z # w2 @ ?f t = ?f (u @ [z]) @ w2 @ ?f t"
    using greplace_sep[OF p sep, of u "[]"] fl e by simp
  finally show ?thesis .
qed

lemma clean_fences_wrapped:
  assumes "s \<noteq> []" and "is_json_ws (last s) \<or> last s = 93"
    and w: "list_all is_space w1" "list_all is_space w2"
  shows "clean_fences (str ''```json'' @ w1 @ s @ w2 @ str ''```'') = clean_fences s"
proof -
  define P1 :: jstring where "P1 = [96, 96, 96, 106, 115, 111, 110]"
  define P2 :: jstring where "P2 = [96, 96, 96]"
  let ?f1 = "greplace (lits P1) True [] True"
  let ?f2 = "greplace (lits P2) False [] True"
  have r1: "fence_json_re = lits P1" by (simp only: fence_json_re_lits P1_def)
  have r2: "fence_re = lits P2" by (simp only: fence_re_lits P2_def)
  have F: "str ''```json'' = P1" by (simp add: str_def P1_def)
  have C: "str ''```'' = P2" by (simp add: str_def P2_def)
  have n1: "P1 \<noteq> []" by (simp add: P1_def)
  have n2: "P2 \<noteq> []" by (simp add: P2_def)
  have fp1: "fence_pass ?f1" using fence_pass_json by (simp only: r1)
  have fp2: "fence_pass ?f2" using fence_pass_plain by (simp only: r2)
  from assms(1) obtain u z where s: "s = u @ [z]" and z: "is_json_ws z \<or> z = 93"
    using assms(2) by (cases s rule: rev_cases) auto
  have s1: "\<forall>x\<in>set P1. \<not> (if True then canon z = canon x else z = x)"
    using z by (auto simp: is_json_ws_def canon_def P1_def)
  have s2: "\<forall>x\<in>set P2. \<not> (if False then canon z = canon x else z = x)"
    using z by (auto simp: is_json_ws_def P2_def)
  have c1: "?f1 P2 = P2" by (rule greplace_lits_short[OF n1]) (simp add: P1_def P2_def)
  have c2: "?f2 P2 = []"
    using greplace_lits_prefix[OF n2, of False "[]" True "[]"] greplace_nil[of "lits P2" False True]
    by simp
  have "?f1 (P1 @ w1 @ (u @ [z]) @ w2 @ P2) = [] @ ?f1 (w1 @ (u @ [z]) @ w2 @ P2)"
    by (rule greplace_lits_prefix[OF n1])
  also have "\<dots> = w1 @ ?f1 (u @ [z]) @ w2 @ ?f1 P2"
    using pass_wrapped[OF fp1 n1 s1 w] by simp
  finally have a: "?f1 (P1 @ w1 @ (u @ [z]) @ w2 @ P2) = w1 @ ?f1 (u @ [z]) @ w2 @ P2"
    using c1 by simp
  have "?f1 (u @ [z]) = greplace (lits P1) True [] False u @ [z]"
    using greplace_sep[OF n1 s1, of u "[]"] greplace_lits_flag[OF n1, of True "[]" True]
      greplace_nil[of "lits P1" True False]
    by simp
  then obtain u' where u': "?f1 (u @ [z]) = u' @ [z]" by blast
  have b: "?f2 (w1 @ (u' @ [z]) @ w2 @ P2) = w1 @ ?f2 (u' @ [z]) @ w2"
    using pass_wrapped[OF fp2 n2 s2 w, of u' P2] c2 by simp
  have "?f2 (?f1 (P1 @ w1 @ (u @ [z]) @ w2 @ P2)) = w1 @ ?f2 (?f1 (u @ [z])) @ w2"
    by (simp only: a u' b)
  then show ?thesis
    unfolding clean_fences_def r1 r2 F C s using trim_pad[OF w] by simp
qed

subsection \<open>Marked lists\<close>

text \<open>The end of the match that the engine finds first.\<close>

definition first_end :: "re \<Rightarrow> bool \<Rightarrow> pos \<Rightarrow> pos option" where
  "first_end r ci p = (case ends r ci p of [] \<Rightarrow> None | q # _ \<Rightarrow> Some q)"

text \<open>
  A list marker, as the pattern of step 3B accepts it: an ordinal (digits followed by a
  full stop or a closing parenthesis), a hyphen, an asterisk, the bullet U+2022, or one
  of the words \<^verbatim>\<open>Option\<close> and \<^verbatim>\<open>Variation\<close> in any case, followed by a space and digits.
\<close>

definition ordinal_marker :: "jstring \<Rightarrow> bool" where
  "ordinal_marker m =
     (case rev m of [] \<Rightarrow> False
      | c # ds \<Rightarrow> (c = 46 \<or> c = 41) \<and> ds \<noteq> [] \<and> list_all is_digit ds)"

definition keyword_marker :: "jstring \<Rightarrow> jstring \<Rightarrow> bool" where
  "keyword_marker k m =
     (lits_match True k m \<and> drop (length k) m \<noteq> [] \<and> list_all is_digit (drop (length k) m))"

definition list_marker :: "jstring \<Rightarrow> bool" where
  "list_marker m = (ordinal_marker m \<or> m = [45] \<or> m = [42] \<or> m = [8226]
                    \<or> keyword_marker (str ''Option '') m \<or> keyword_marker (str ''Variation '') m)"

text \<open>
  A marked line: the line break (\<^verbatim>\<open>\n\<close>, \<^verbatim>\<open>\r\<close> or \<^verbatim>\<open>\r\n\<close>) with the white space that
  follows it, the marker, the white space after the marker, and the rest of the line.
\<close>

record marked_line =
  l_lead :: jstring
  l_marker :: jstring
  l_gap :: jstring
  l_item :: jstring

definition line_text :: "marked_line \<Rightarrow> jstring" where
  "line_text e = l_lead e @ l_marker e @ l_gap e @ l_item e"

text \<open>The line "Here are some options:" followed by marked lines.\<close>

definition marked_text :: "marked_line list \<Rightarrow> jstring" where
  "marked_text entries = str ''Here are some options:'' @ concat (map line_text entries)"

text \<open>
  A real item: the rest of a line that starts with no white space and holds no line
  break, whose text without surrounding white space passes the filter of step 3B (at
  least 5 code units, no preamble phrase) and is left as it is by the final clean-up,
  which removes a double quote at either end, \<^verbatim>\<open>["\<close> at the start and \<^verbatim>\<open>",\<close> at the end.
\<close>

definition real_item :: "(jstring \<Rightarrow> jstring) \<Rightarrow> jstring \<Rightarrow> bool" where
  "real_item lc it =
     (it \<noteq> [] \<and> \<not> is_space (hd it) \<and> 10 \<notin> set it \<and> 13 \<notin> set it
      \<and> keep_item lc (trim it) \<and> \<not> has_match artifact_re False True (trim it))"

definition well_marked :: "(jstring \<Rightarrow> jstring) \<Rightarrow> marked_line \<Rightarrow> bool" where
  "well_marked lc e =
     (l_lead e \<noteq> [] \<and> (hd (l_lead e) = 10 \<or> hd (l_lead e) = 13) \<and> list_all is_space (l_lead e)
      \<and> list_marker (l_marker e)
      \<and> l_gap e \<noteq> [] \<and> list_all is_space (l_gap e)
      \<and> real_item lc (l_item e))"

text \<open>Step 3A returns: the cleaned text holds \<^verbatim>\<open>", "\<close> or starts with a double quote, and
  more than one of its pieces is longer than 5 code units.\<close>

definition quoted_list_accepted :: "jstring \<Rightarrow> bool" where
  \<open>quoted_list_accepted cleaned =
     ((str_includes cleaned (str ''", "'') \<or> starts_with cleaned (str ''"''))
      \<and> 1 < length (quotedItems cleaned))\<close>

text \<open>A way to put pieces together again.\<close>

definition prepend :: "jstring \<Rightarrow> jstring list \<Rightarrow> jstring list" where
  "prepend p xs = (case xs of [] \<Rightarrow> [p] | q # qs \<Rightarrow> (p @ q) # qs)"

text \<open>Two marked lines, with a bracket and double quotes inside the items.\<close>

definition two_options :: "marked_line list" where
  \<open>two_options =
     [\<lparr>l_lead = [10], l_marker = str ''Option 1'', l_gap = [32],
       l_item = str ''First [draft] item''\<rparr>,
      \<lparr>l_lead = [13, 10, 32, 32], l_marker = str ''variation 2'', l_gap = [32, 32],
       l_item = str ''Second "hi" item''\<rparr>]\<close>

lemmas marked_defs =
  two_options_def marked_text_def line_text_def well_marked_def real_item_def list_marker_def
  ordinal_marker_def keyword_marker_def quoted_list_accepted_def

lemma rmatch_first_end:
  "rmatch r ci p = map_option (\<lambda>q. length (snd p) - length (snd q)) (first_end r ci p)"
  by (simp add: rmatch_def first_end_def split: list.splits)

lemma first_end_Seq:
  "first_end r1 ci p = Some q \<Longrightarrow> first_end r2 ci q = Some t \<Longrightarrow> first_end (Seq r1 r2) ci p = Some t"
  by (auto simp: first_end_def split: list.splits)

lemma first_end_Alt1: "first_end r1 ci p = Some t \<Longrightarrow> first_end (Alt r1 r2) ci p = Some t"
  by (auto simp: first_end_def split: list.splits)

lemma first_end_Alt2: "ends r1 ci p = [] \<Longrightarrow> first_end (Alt r1 r2) ci p = first_end r2 ci p"
  by (simp add: first_end_def)

lemma star_ends_first:
  "list_all f w \<Longrightarrow> s = [] \<or> \<not> f (hd s) \<Longrightarrow> \<exists>qs. star_ends f (False, w @ s) = (False, s) # qs"
proof (induction w)
  case Nil
  then show ?case by (cases s) auto
next
  case (Cons a w)
  then obtain qs where "star_ends f (False, w @ s) = (False, s) # qs" by auto
  with Cons.prems show ?case by simp
qed

lemma first_end_Star:
  "list_all f w \<Longrightarrow> s = [] \<or> \<not> f (hd s) \<Longrightarrow> first_end (Star f) ci (False, w @ s) = Some (False, s)"
  using star_ends_first[of f w s] by (auto simp: first_end_def)

lemma first_end_Plus:
  "w \<noteq> [] \<Longrightarrow> list_all f w \<Longrightarrow> s = [] \<or> \<not> f (hd s) \<Longrightarrow>
   first_end (Plus f) ci (b, w @ s) = Some (False, s)"
proof -
  assume a: "w \<noteq> []" "list_all f w" "s = [] \<or> \<not> f (hd s)"
  then obtain c w' where w: "w = c # w'" by (cases w) auto
  with a obtain qs where "star_ends f (False, w' @ s) = (False, s) # qs"
    using star_ends_first[of f w' s] by auto
  with w a show ?thesis by (simp add: first_end_def)
qed

lemma first_end_lits:
  "p \<noteq> [] \<Longrightarrow> lits_match ci p s \<Longrightarrow> first_end (lits p) ci (b, s) = Some (False, drop (length p) s)"
  by (simp add: first_end_def ends_lits)

lemma ends_lits_none: "p \<noteq> [] \<Longrightarrow> \<not> lits_match ci p s \<Longrightarrow> ends (lits p) ci (b, s) = []"
  by (simp add: ends_lits)

lemma digits_then_mark:
  "list_all is_digit ds \<Longrightarrow> c = 46 \<or> c = 41 \<Longrightarrow>
   concat (map (ends (Cls (\<lambda>c. c = 46 \<or> c = 41)) ci) (star_ends is_digit (b, ds @ c # r))) = [(False, r)]"
proof (induction ds arbitrary: b)
  case Nil
  then show ?case by (auto simp: is_digit_def)
next
  case (Cons d ds)
  then show ?case by (auto simp: is_digit_def)
qed

lemma digit_not_space: "is_digit d \<Longrightarrow> \<not> is_space d"
  by (auto simp: is_digit_def is_space_def)

lemma space_not_digit: "is_space d \<Longrightarrow> \<not> is_digit d"
  by (auto simp: is_digit_def is_space_def)

lemma lits_match_append: "lits_match ci p s \<Longrightarrow> lits_match ci p (s @ r)"
  by (induction ci p s rule: lits_match.induct) auto

lemma ordinal_marker_shape:
  assumes "ordinal_marker m"
  shows "\<exists>d ds c. m = d # ds @ [c] \<and> is_digit d \<and> list_all is_digit ds \<and> (c = 46 \<or> c = 41)"
proof -
  from assms obtain c rds where r: "rev m = c # rds" and c: "c = 46 \<or> c = 41"
    and ne: "rds \<noteq> []" and dg: "list_all is_digit rds"
    by (auto simp: ordinal_marker_def split: list.splits)
  define ds where "ds = rev rds"
  from r have m: "m = ds @ [c]" unfolding ds_def by (metis rev.simps(2) rev_rev_ident)
  from ne dg obtain d ds' where "ds = d # ds'" "is_digit d" "list_all is_digit ds'"
    unfolding ds_def by (cases "rev rds") (auto simp: list_all_iff)
  with m c show ?thesis by auto
qed

lemma keyword_marker_shape:
  assumes "keyword_marker (k0 # k) m"
  shows "\<exists>c m'. m = c # m' \<and> canon c = canon k0 \<and> lits_match True (k0 # k) m
           \<and> length (k0 # k) \<le> length m
           \<and> drop (length (k0 # k)) m \<noteq> [] \<and> list_all is_digit (drop (length (k0 # k)) m)"
proof -
  from assms have l: "lits_match True (k0 # k) m" and d: "drop (length (k0 # k)) m \<noteq> []"
    "list_all is_digit (drop (length (k0 # k)) m)"
    by (simp_all add: keyword_marker_def)
  from l obtain c m' where "m = c # m'" "canon c = canon k0" by (cases m) auto
  with l d lits_match_length[OF l] show ?thesis by auto
qed

lemma list_marker_hd: "list_marker m \<Longrightarrow> m \<noteq> [] \<and> \<not> is_space (hd m)"
  unfolding list_marker_def
proof (elim disjE)
  assume "ordinal_marker m"
  from ordinal_marker_shape[OF this] show ?thesis by (auto simp: digit_not_space)
next
  assume "keyword_marker (str ''Option '') m"
  then have "keyword_marker (79 # str ''ption '') m" by (simp add: str_def)
  from keyword_marker_shape[OF this] show ?thesis
    by (auto simp: canon_def is_space_def split: if_splits)
next
  assume "keyword_marker (str ''Variation '') m"
  then have "keyword_marker (86 # str ''ariation '') m" by (simp add: str_def)
  from keyword_marker_shape[OF this] show ?thesis
    by (auto simp: canon_def is_space_def split: if_splits)
qed (simp_all add: is_space_def)

lemma marker_end:
  assumes "list_marker m" and "t \<noteq> []" and "is_space (hd t)"
  shows "first_end
           (Alt (Seq (Plus is_digit) (Cls (\<lambda>c. c = 46 \<or> c = 41)))
           (Alt (Lit 45)
           (Alt (Lit 42)
           (Alt (Lit 8226)
           (Alt (Seq (lits (str ''Option '')) (Plus is_digit))
                (Seq (lits (str ''Variation '')) (Plus is_digit)))))))
           True (False, m @ t) = Some (False, t)"
    (is "first_end (Alt ?ORD (Alt ?H (Alt ?A (Alt ?B (Alt ?OPT ?VAR))))) True _ = _")
proof -
  have nd: "\<not> is_digit (hd t)" using assms(3) by (rule space_not_digit)
  have kw: "first_end (Seq (lits k) (Plus is_digit)) True (False, m @ t) = Some (False, t)"
    if k: "keyword_marker k m" "k \<noteq> []" for k
  proof -
    from k have l: "lits_match True k m" and d: "drop (length k) m \<noteq> []"
      "list_all is_digit (drop (length k) m)" by (simp_all add: keyword_marker_def)
    from lits_match_length[OF l] have dr: "drop (length k) (m @ t) = drop (length k) m @ t" by simp
    have 1: "first_end (lits k) True (False, m @ t) = Some (False, drop (length k) m @ t)"
      using first_end_lits[OF k(2) lits_match_append[OF l], of False t] dr by simp
    have 2: "first_end (Plus is_digit) True (False, drop (length k) m @ t) = Some (False, t)"
      using d nd by (intro first_end_Plus) auto
    from 1 2 show ?thesis by (rule first_end_Seq)
  qed
  have ko: "str ''Option '' \<noteq> []" and kv: "str ''Variation '' \<noteq> []" by (simp_all add: str_def)
  from assms(1) consider (ord) "ordinal_marker m" | (h) "m = [45]" | (a) "m = [42]" | (b) "m = [8226]"
    | (opt) "keyword_marker (str ''Option '') m" | (var) "keyword_marker (str ''Variation '') m"
    unfolding list_marker_def by blast
  then show ?thesis
  proof cases
    case ord
    from ordinal_marker_shape[OF ord] obtain d ds c where m: "m = d # ds @ [c]" and d: "is_digit d"
      and ds: "list_all is_digit ds" and c: "c = 46 \<or> c = 41" by blast
    have "ends ?ORD True (False, m @ t) = [(False, t)]"
      using digits_then_mark[OF ds c, of True False t] d m by simp
    then have "first_end ?ORD True (False, m @ t) = Some (False, t)" by (simp add: first_end_def)
    then show ?thesis by (rule first_end_Alt1)
  next
    case h
    then show ?thesis by (simp add: first_end_def is_digit_def canon_def)
  next
    case a
    then show ?thesis by (simp add: first_end_def is_digit_def canon_def)
  next
    case b
    then show ?thesis by (simp add: first_end_def is_digit_def canon_def)
  next
    case opt
    then have "keyword_marker (79 # str ''ption '') m" by (simp add: str_def)
    from keyword_marker_shape[OF this] obtain c m' where m: "m = c # m'" and c: "c = 79 \<or> c = 111"
      by (auto simp: canon_def split: if_splits)
    from m c have e: "ends ?ORD True (False, m @ t) = []" "ends ?H True (False, m @ t) = []"
      "ends ?A True (False, m @ t) = []" "ends ?B True (False, m @ t) = []"
      by (auto simp: is_digit_def canon_def)
    have "first_end (Alt ?OPT ?VAR) True (False, m @ t) = Some (False, t)"
      using kw[OF opt ko] by (rule first_end_Alt1)
    with e show ?thesis by (simp only: first_end_Alt2)
  next
    case var
    then have "keyword_marker (86 # str ''ariation '') m" by (simp add: str_def)
    from keyword_marker_shape[OF this] obtain c m' where m: "m = c # m'" and c: "c = 86 \<or> c = 118"
      by (auto simp: canon_def split: if_splits)
    from m c have e: "ends ?ORD True (False, m @ t) = []" "ends ?H True (False, m @ t) = []"
      "ends ?A True (False, m @ t) = []" "ends ?B True (False, m @ t) = []"
      by (auto simp: is_digit_def canon_def)
    from m c have "\<not> lits_match True (str ''Option '') (m @ t)"
      by (auto simp: str_def canon_def)
    then have "ends (lits (str ''Option '')) True (False, m @ t) = []"
      using ko by (intro ends_lits_none)
    then have eo: "ends ?OPT True (False, m @ t) = []" by simp
    from e eo kw[OF var kv] show ?thesis by (simp only: first_end_Alt2)
  qed
qed

lemma lead_end:
  assumes "c = 10 \<or> c = 13" and "list_all is_space w" and "s \<noteq> []" and "\<not> is_space (hd s)"
    and "first_end x True (False, s) = Some q"
  shows "first_end (Seq (Alt (Seq (Lit 13) (Lit 10)) (Alt (Lit 13) (Lit 10))) (Seq (Star is_space) x))
           True (b, c # w @ s) = Some q"
    (is "first_end (Seq ?BRK _) True _ = _")
proof -
  have "\<exists>w'. list_all is_space w' \<and> first_end ?BRK True (b, c # w @ s) = Some (False, w' @ s)"
  proof (cases "c = 13 \<and> w \<noteq> [] \<and> hd w = 10")
    case True
    then obtain w' where w: "w = 10 # w'" by (cases w) auto
    with True assms(2) show ?thesis
      by (intro exI[of _ w']) (simp add: first_end_def canon_def)
  next
    case False
    have "hd (w @ s) \<noteq> 10 \<or> c \<noteq> 13"
    proof (cases w)
      case Nil
      with assms(4) show ?thesis by (auto simp: is_space_def)
    next
      case (Cons a w')
      with False show ?thesis by auto
    qed
    moreover from assms(3) obtain a r where "w @ s = a # r" by (cases "w @ s") auto
    ultimately show ?thesis
      using assms(1,2) by (intro exI[of _ w]) (auto simp: first_end_def canon_def)
  qed
  then obtain w' where w': "list_all is_space w'"
    and 1: "first_end ?BRK True (b, c # w @ s) = Some (False, w' @ s)" by blast
  have 2: "first_end (Star is_space) True (False, w' @ s) = Some (False, s)"
    using w' assms(4) by (intro first_end_Star) auto
  from first_end_Seq[OF 2 assms(5)] have "first_end (Seq (Star is_space) x) True (False, w' @ s) = Some q" .
  with 1 show ?thesis by (rule first_end_Seq)
qed

lemma rmatch_marked_line:
  assumes "c = 10 \<or> c = 13" and "list_all is_space w" and "list_marker m"
    and "gp \<noteq> []" and "list_all is_space gp" and "it \<noteq> []" and "\<not> is_space (hd it)"
  shows "rmatch list_marker_re True (b, (c # w) @ m @ gp @ it @ rest)
           = Some (length (c # w) + length m + length gp)"
proof -
  have t: "gp @ it @ rest \<noteq> []" "is_space (hd (gp @ it @ rest))"
    using assms(4,5) by (cases gp; simp)+
  have 1: "first_end (Plus is_space) True (False, gp @ it @ rest) = Some (False, it @ rest)"
    using assms(4,5,6,7) by (intro first_end_Plus) auto
  note 2 = first_end_Seq[OF marker_end[OF assms(3) t] 1]
  from list_marker_hd[OF assms(3)] have s: "m @ gp @ it @ rest \<noteq> []" "\<not> is_space (hd (m @ gp @ it @ rest))"
    by auto
  have "first_end list_marker_re True (b, c # w @ m @ gp @ it @ rest) = Some (False, it @ rest)"
    unfolding list_marker_re_def by (rule lead_end[OF assms(1,2) s 2])
  then show ?thesis by (simp add: rmatch_first_end)
qed

lemma star_ends_space:
  "list_all f (snd p) \<Longrightarrow> q \<in> set (star_ends f p) \<Longrightarrow> list_all f (snd q)"
proof (induction f p rule: star_ends.induct)
  case (1 f b)
  then show ?case by simp
next
  case (2 f b c cs)
  then show ?case by (auto split: if_splits)
qed

lemma concat_map_nil: "\<forall>x\<in>set xs. f x = [] \<Longrightarrow> concat (map f xs) = []"
  by (induction xs) auto

lemma marker_none_at_space:
  assumes "s = [] \<or> is_space (hd s)"
  shows "ends
           (Alt (Seq (Plus is_digit) (Cls (\<lambda>c. c = 46 \<or> c = 41)))
           (Alt (Lit 45)
           (Alt (Lit 42)
           (Alt (Lit 8226)
           (Alt (Seq (lits (str ''Option '')) (Plus is_digit))
                (Seq (lits (str ''Variation '')) (Plus is_digit)))))))
           True (b, s) = []"
proof (cases s)
  case Nil
  then show ?thesis by (simp add: str_def)
next
  case (Cons c cs)
  with assms have sp: "is_space c" by simp
  then have "\<not> is_digit c" "c \<noteq> 45" "c \<noteq> 42" "c \<noteq> 8226" "canon c = c" "c \<noteq> 79" "c \<noteq> 86"
    by (auto simp: is_space_def is_digit_def canon_def)
  with Cons show ?thesis by (simp add: str_def canon_def)
qed

lemma marker_re_none_at_space:
  assumes "list_all is_space t"
  shows "ends list_marker_re True (b, t) = []"
proof -
  let ?MARK = "Alt (Seq (Plus is_digit) (Cls (\<lambda>c. c = 46 \<or> c = 41)))
           (Alt (Lit 45)
           (Alt (Lit 42)
           (Alt (Lit 8226)
           (Alt (Seq (lits (str ''Option '')) (Plus is_digit))
                (Seq (lits (str ''Variation '')) (Plus is_digit))))))"
  let ?X = "Seq (Star is_space) (Seq ?MARK (Plus is_space))"
  have m: "ends (Seq ?MARK (Plus is_space)) True q = []" if "list_all is_space (snd q)" for q
  proof -
    obtain b' s where q: "q = (b', s)" by (cases q)
    from that q have "s = [] \<or> is_space (hd s)" by (cases s) auto
    then have e: "ends ?MARK True (b', s) = []" by (rule marker_none_at_space)
    show ?thesis unfolding q ends.simps(3) e by simp
  qed
  have x: "ends ?X True q = []" if w: "list_all is_space (snd q)" for q
  proof -
    have "\<forall>r\<in>set (star_ends is_space q). ends (Seq ?MARK (Plus is_space)) True r = []"
      using star_ends_space[OF w] m by blast
    then show ?thesis unfolding ends.simps(3)[of "Star is_space"] ends.simps(5)
      by (rule concat_map_nil)
  qed
  have "\<forall>q\<in>set (ends (Alt (Seq (Lit 13) (Lit 10)) (Alt (Lit 13) (Lit 10))) True (b, t)).
          list_all is_space (snd q)"
    using assms by (cases t; cases "tl t") (auto simp: canon_def split: if_splits)
  with x have "\<forall>q\<in>set (ends (Alt (Seq (Lit 13) (Lit 10)) (Alt (Lit 13) (Lit 10))) True (b, t)).
          ends ?X True q = []" by blast
  then show ?thesis
    unfolding list_marker_re_def ends.simps(3)[of "Alt (Seq (Lit 13) (Lit 10)) (Alt (Lit 13) (Lit 10))"]
    by (rule concat_map_nil)
qed

lemma no_marker_in_space: "list_all is_space t \<Longrightarrow> \<not> has_match list_marker_re True b t"
  by (induction t arbitrary: b) (simp_all add: rmatch_def marker_re_none_at_space)

lemma cons_first_prepend: "cons_first c xs = prepend [c] xs"
  by (cases xs) (auto simp: prepend_def)

lemma prepend_prepend: "prepend p (prepend q xs) = prepend (p @ q) xs"
  by (cases xs) (auto simp: prepend_def)

lemma canon_nonletter: "x < 65 \<Longrightarrow> (canon c = canon x) = (c = x)"
  by (auto simp: canon_def)

lemma rmatch_marker_None:
  "c \<noteq> 10 \<Longrightarrow> c \<noteq> 13 \<Longrightarrow> rmatch list_marker_re True (b, c # s) = None"
  by (simp add: rmatch_def list_marker_re_def canon_nonletter)

lemma gsplit_skip:
  assumes "10 \<notin> set p" and "13 \<notin> set p" and "p \<noteq> []"
  shows "gsplit list_marker_re True b fresh (p @ rest)
           = prepend p (gsplit list_marker_re True False False rest)"
  using assms
proof (induction p arbitrary: b fresh)
  case Nil
  then show ?case by simp
next
  case (Cons c p)
  then have n: "rmatch list_marker_re True (b, c # p @ rest) = None"
    using rmatch_marker_None by simp
  show ?case
  proof (cases "p = []")
    case True
    with n show ?thesis by (simp add: cons_first_prepend)
  next
    case False
    with Cons have "gsplit list_marker_re True False False (p @ rest)
        = prepend p (gsplit list_marker_re True False False rest)" by simp
    with n show ?thesis by (simp add: cons_first_prepend prepend_prepend)
  qed
qed

lemma keep_item_length: "keep_item lc it \<Longrightarrow> 5 \<le> length it"
  by (simp add: keep_item_def Let_def split: if_splits)

lemma gsplit_lines:
  assumes "list_all (well_marked lc) entries" and "p \<noteq> []" and "10 \<notin> set p" and "13 \<notin> set p"
    and "list_all is_space tail"
  shows "map trim (gsplit list_marker_re True b fresh (p @ concat (map line_text entries) @ tail))
           = trim p # map (\<lambda>e. trim (l_item e)) entries"
  using assms(1-4)
proof (induction entries arbitrary: p b fresh)
  case Nil
  have "gsplit list_marker_re True False False tail = [tail]"
    using no_marker_in_space[OF assms(5)] by (rule gsplit_no_match)
  then have "gsplit list_marker_re True b fresh (p @ tail) = [p @ tail]"
    using gsplit_skip[OF Nil.prems(3,4,2), of b fresh tail] by (simp add: prepend_def)
  moreover have "trim (p @ tail) = trim p"
    using trim_pad[of "[]" tail p] assms(5) by simp
  ultimately show ?case by simp
next
  case (Cons e es)
  from Cons.prems(1) have le: "well_marked lc e" and rest: "list_all (well_marked lc) es" by simp_all
  let ?S = "concat (map line_text es) @ tail"
  from le obtain c w where ld: "l_lead e = c # w" and c: "c = 10 \<or> c = 13" and w: "list_all is_space w"
    by (cases "l_lead e") (auto simp: well_marked_def)
  from le have ok: "list_marker (l_marker e)" "l_gap e \<noteq> []" "list_all is_space (l_gap e)"
    "l_item e \<noteq> []" "\<not> is_space (hd (l_item e))" "10 \<notin> set (l_item e)" "13 \<notin> set (l_item e)"
    by (simp_all add: well_marked_def real_item_def)
  define n where "n = length w + length (l_marker e) + length (l_gap e)"
  have r: "rmatch list_marker_re True (False, c # w @ l_marker e @ l_gap e @ l_item e @ ?S) = Some (Suc n)"
    using rmatch_marked_line[OF c w ok(1,2,3,4,5), of False ?S] by (simp add: n_def)
  have d: "drop n (w @ l_marker e @ l_gap e @ l_item e @ ?S) = l_item e @ ?S"
    by (simp add: n_def)
  have ih: "map trim (gsplit list_marker_re True False True (l_item e @ ?S))
              = trim (l_item e) # map (\<lambda>e. trim (l_item e)) es"
    using Cons.IH[OF rest ok(4) ok(6) ok(7)] .
  have lt: "line_text e = c # w @ l_marker e @ l_gap e @ l_item e"
    using ld by (simp add: line_text_def)
  have g: "gsplit list_marker_re True False False (line_text e @ ?S)
             = [] # gsplit list_marker_re True False True (l_item e @ ?S)"
    using r d by (simp add: lt)
  have cc: "concat (map line_text (e # es)) @ tail = line_text e @ ?S" by simp
  have "gsplit list_marker_re True b fresh (p @ line_text e @ ?S)
          = prepend p (gsplit list_marker_re True False False (line_text e @ ?S))"
    by (rule gsplit_skip[OF Cons.prems(3,4,2)])
  also have "\<dots> = p # gsplit list_marker_re True False True (l_item e @ ?S)"
    unfolding g by (simp add: prepend_def)
  finally show ?case unfolding cc using ih by simp
qed

lemma trim_ends:
  assumes "trim s \<noteq> []"
  shows "\<not> is_space (hd (trim s)) \<and> \<not> is_space (last (trim s))"
proof -
  define d where "d = dropWhile is_space s"
  define e where "e = dropWhile is_space (rev d)"
  have t: "trim s = rev e" by (simp add: trim_def d_def e_def)
  with assms have ne: "e \<noteq> []" by simp
  then have 1: "\<not> is_space (hd e)" unfolding e_def by (rule hd_dropWhile)
  from ne have dn: "d \<noteq> []" unfolding e_def by auto
  then have 2: "\<not> is_space (hd d)" unfolding d_def by (rule hd_dropWhile)
  have "rev d = takeWhile is_space (rev d) @ e" by (simp add: e_def)
  then have "last (rev d) = last e" using ne by (metis last_appendR)
  with dn have 3: "last e = hd d" by (simp add: last_rev)
  from t ne 1 2 3 show ?thesis by (simp add: hd_rev last_rev)
qed

lemma trim_trim: "trim (trim s) = trim s"
proof (cases "trim s = []")
  case True
  have "trim [] = []" by (simp add: trim_def)
  with True show ?thesis by simp
next
  case False
  with trim_ends[OF False] show ?thesis by (intro trim_id) auto
qed


section \<open>The HTTP service\<close>

subsection \<open>Values, exceptions and the outside world\<close>

text \<open>
  The values of a request body, after \<^verbatim>\<open>express.json()\<close> has parsed it, and of the
  responses. A number is the real value of its double; an infinity, which a literal such
  as \<^verbatim>\<open>1e999\<close> gives, behaves in this program as any number beyond the constants it is
  compared with.
\<close>

datatype jsv =
    VUndefined
  | VNull
  | VBool bool
  | VNum real
  | VStr jstring
  | VArr "jsv list"
  | VObj "(jstring \<times> jsv) list"

text \<open>\<^verbatim>\<open>!v\<close> is \<open>\<not> truthy v\<close> (a parsed body holds no NaN).\<close>

fun truthy :: "jsv \<Rightarrow> bool" where
  "truthy VUndefined = False"
| "truthy VNull = False"
| "truthy (VBool b) = b"
| "truthy (VNum r) = (r \<noteq> 0)"
| "truthy (VStr s) = (s \<noteq> [])"
| "truthy (VArr xs) = True"
| "truthy (VObj ms) = True"

text \<open>A request body (or query) is an object; a property that is absent reads as
  \<^verbatim>\<open>undefined\<close>.\<close>

type_synonym body = "(jstring \<times> jsv) list"

definition prop_of :: "body \<Rightarrow> string \<Rightarrow> jsv" where
  "prop_of b k = (case map_of b (str k) of None \<Rightarrow> VUndefined | Some v \<Rightarrow> v)"

text \<open>A thrown value with its \<^verbatim>\<open>message\<close> and \<^verbatim>\<open>status\<close> properties; an awaited call either
  throws or returns.\<close>

datatype exn = Exn (e_message: jsv) (e_status: jsv)

datatype 'a outcome = Throws exn | Returns 'a

record receipt =
  r_status :: jsv
  r_hash :: jsv

text \<open>A submitted transaction: its hash and what \<^verbatim>\<open>tx.wait()\<close> will give.\<close>

record tx =
  tx_hash :: jsv
  tx_wait :: "receipt outcome"

datatype stage = Topics | Hooks | Body | CTA | Polish

text \<open>
  A prompt is a template of the source filled with texts; it is kept as the stage and the
  texts, in the order in which the template holds them, since only the model provider
  reads the result. The style examples that the body template draws at random from a
  fixed collection are left to the provider's side.
\<close>

datatype prompt = Prompt stage "jstring list"

record completion =
  choice_content :: jsv
  signature_of :: jsv

text \<open>Every call that leaves the process, and the invocation of the orchestrator.\<close>

datatype event =
    EChat bool prompt jstring
  | ESearch jsv
  | EVerify "jsv list"
  | EExecute "jsv list"
  | EAllowance jsv jsv
  | EBalanceOf jsv
  | ETransferFrom jsv jsv int
  | ETxCount
  | ETransfer jsv int nat
  | EWait
  | EGrantFetch jstring
  | EOrchestrator jsv jsv

text \<open>
  The collaborators, as functions of their arguments. From the runtime: the Unicode
  lower-casing, the value of a number literal, the text of a number
  (\<^verbatim>\<open>Number.prototype.toString\<close>), the number a text denotes (\<open>None\<close> is NaN) and the
  message of the \<^verbatim>\<open>TypeError\<close> it throws when the named operation is not possible. From
  the environment: the configured model name. From the network: the chat-completion
  client of the provider in use (\<open>True\<close>: the secondary one; a completion without choices
  makes the caller throw and is the same as a throw here), the search client together
  with the formatting of its results, the set-up of the two wallets (it gives the wallet
  address), the payment contract, the token contract, the generated content id and the
  grant API.
\<close>

record world =
  w_lower :: "jstring \<Rightarrow> jstring"
  w_numval :: "jstring \<Rightarrow> real"
  w_number_text :: "real \<Rightarrow> jstring"
  w_text_number :: "jstring \<Rightarrow> real option"
  w_type_error :: "string \<Rightarrow> jstring"
  w_eigen_model :: jstring
  w_chat :: "bool \<Rightarrow> prompt \<Rightarrow> jstring \<Rightarrow> completion outcome"
  w_search :: "jsv \<Rightarrow> jstring outcome"
  w_wallet :: "jsv outcome"
  w_faucet_wallet :: "jsv outcome"
  w_verify :: "jsv list \<Rightarrow> (bool \<times> jstring) outcome"
  w_execute :: "jsv list \<Rightarrow> tx outcome"
  w_allowance :: "jsv \<Rightarrow> jsv \<Rightarrow> int outcome"
  w_balanceOf :: "jsv \<Rightarrow> int outcome"
  w_transferFrom :: "jsv \<Rightarrow> jsv \<Rightarrow> int \<Rightarrow> tx outcome"
  w_tx_count :: "nat outcome"
  w_transfer :: "jsv \<Rightarrow> int \<Rightarrow> nat \<Rightarrow> tx outcome"
  w_content_id :: jstring
  w_grant_api :: "jstring \<Rightarrow> (bool \<times> jstring) outcome"

text \<open>The process state: the flag \<^verbatim>\<open>isUsingGroq\<close> and the calls made so far.\<close>

type_synonym st = "bool \<times> event list"

definition emit :: "event \<Rightarrow> st \<Rightarrow> st" where
  "emit ev s = (fst s, snd s @ [ev])"

record response =
  code :: nat
  payload :: "(jstring \<times> jsv) list"

definition respond :: "nat \<Rightarrow> (string \<times> jsv) list \<Rightarrow> response" where
  "respond c kvs = \<lparr>code = c, payload = map (\<lambda>(k, v). (str k, v)) kvs\<rparr>"

subsection \<open>Conversions\<close>

text \<open>A \<^verbatim>\<open>TypeError\<close> has a message and no \<^verbatim>\<open>status\<close>.\<close>

definition type_error :: "world \<Rightarrow> string \<Rightarrow> exn" where
  "type_error w operation = Exn (VStr (w_type_error w operation)) VUndefined"

text \<open>\<^verbatim>\<open>Array.prototype.join\<close> with the separator comma, on the texts of the elements.\<close>

fun join_texts :: "jstring option list \<Rightarrow> jstring option" where
  "join_texts [] = Some []"
| "join_texts [x] = x"
| "join_texts (x # y # ys) =
     (case x of
        None \<Rightarrow> None
      | Some a \<Rightarrow> (case join_texts (y # ys) of None \<Rightarrow> None | Some r \<Rightarrow> Some (a @ 44 # r)))"

text \<open>
  The conversion to a string that a template literal applies to a value (\<open>None\<close>: it
  throws a \<^verbatim>\<open>TypeError\<close>). An array is the join of its elements, where \<^verbatim>\<open>null\<close> and
  \<^verbatim>\<open>undefined\<close> count as empty. An object that came from JSON has no callable property
  of its own: with an own property \<^verbatim>\<open>toString\<close> it has no conversion (the inherited
  \<^verbatim>\<open>valueOf\<close> gives the object back), without one it is \<^verbatim>\<open>[object Object]\<close>.
\<close>

fun to_string :: "world \<Rightarrow> jsv \<Rightarrow> jstring option" where
  "to_string w VUndefined = Some (str ''undefined'')"
| "to_string w VNull = Some (str ''null'')"
| "to_string w (VBool b) = Some (if b then str ''true'' else str ''false'')"
| "to_string w (VNum r) = Some (w_number_text w r)"
| "to_string w (VStr s) = Some s"
| "to_string w (VArr xs) =
     join_texts (map (\<lambda>x. if x = VUndefined \<or> x = VNull then Some [] else to_string w x) xs)"
| "to_string w (VObj ms) =
     (if str ''toString'' \<in> set (map fst ms) then None else Some (str ''[object Object]''))"

text \<open>A \<^verbatim>\<open>console.log\<close> of a template literal that holds the given values.\<close>

definition logs :: "world \<Rightarrow> jsv list \<Rightarrow> bool" where
  "logs w vs = list_all (\<lambda>v. to_string w v \<noteq> None) vs"

text \<open>
  \<^verbatim>\<open>Number(v)\<close>, and the number that \<^verbatim>\<open>v <= n\<close> compares (\<open>Returns None\<close> is NaN). An array
  or an object is first made a primitive: the inherited \<^verbatim>\<open>valueOf\<close> gives the value
  back, so it is its string conversion that is read as a number.
\<close>

definition toNumber :: "world \<Rightarrow> jsv \<Rightarrow> real option outcome" where
  "toNumber w v =
     (case v of
        VNum r \<Rightarrow> Returns (Some r)
      | VBool b \<Rightarrow> Returns (Some (if b then 1 else 0))
      | VNull \<Rightarrow> Returns (Some 0)
      | VUndefined \<Rightarrow> Returns None
      | VStr s \<Rightarrow> Returns (w_text_number w s)
      | VArr xs \<Rightarrow> (case to_string w v of
                      None \<Rightarrow> Throws (type_error w ''primitive'')
                    | Some s \<Rightarrow> Returns (w_text_number w s))
      | VObj ms \<Rightarrow> (case to_string w v of
                      None \<Rightarrow> Throws (type_error w ''primitive'')
                    | Some s \<Rightarrow> Returns None))"

subsection \<open>The model-provider stages (the second \<^verbatim>\<open>ai-service\<close> of the source)\<close>

text \<open>A parsed JSON value as a value of the program.\<close>

primrec to_jsv :: "(jstring \<Rightarrow> real) \<Rightarrow> jval \<Rightarrow> jsv" where
  "to_jsv nv (JString s) = VStr s"
| "to_jsv nv (JNumber l) = VNum (nv l)"
| "to_jsv nv (JBool b) = VBool b"
| "to_jsv nv JNull = VNull"
| "to_jsv nv (JArray xs) = VArr (map (to_jsv nv) xs)"
| "to_jsv nv (JObject ms) = VObj (map (map_prod id (to_jsv nv)) ms)"

definition GROQ_MODEL :: jstring where
  "GROQ_MODEL = str ''llama-3.3-70b-versatile''"

definition resolveModelId :: "world \<Rightarrow> bool \<Rightarrow> jsv \<Rightarrow> jstring outcome" where
  "resolveModelId w isUsingGroq modelName =
     (if isUsingGroq then Returns GROQ_MODEL
      else if \<not> truthy modelName then Returns (w_eigen_model w)
      else (case modelName of
              VStr m \<Rightarrow>
                (let name = toLowerCase (w_lower w) m
                 in if str_includes name (str ''gpt-oss'') \<or> str_includes name (str ''eigen'')
                    then Returns (str ''gpt-oss-120b-f16'')
                    else if str_includes name (str ''qwen'')
                    then Returns (str ''meta-llama-3-1-8b-instruct-q3'')
                    else Returns (w_eigen_model w))
            | _ \<Rightarrow> Throws (type_error w ''toLowerCase'')))"

text \<open>\<^verbatim>\<open>openai.chat.completions.create({ ..., model: resolveModelId(model), ... })\<close>\<close>

definition create_chat :: "world \<Rightarrow> prompt \<Rightarrow> jsv \<Rightarrow> st \<Rightarrow> completion outcome \<times> st" where
  "create_chat w p model s =
     (case resolveModelId w (fst s) model of
        Throws e \<Rightarrow> (Throws e, s)
      | Returns m \<Rightarrow> (w_chat w (fst s) p m, emit (EChat (fst s) p m) s))"

text \<open>\<^verbatim>\<open>content || dflt\<close>, then used as a string: a value that is neither falsy nor a string
  has none of the string methods, and the call throws.\<close>

definition text_or :: "world \<Rightarrow> jsv \<Rightarrow> jstring \<Rightarrow> jstring outcome" where
  "text_or w c dflt = (if \<not> truthy c then Returns dflt
                       else (case c of VStr t \<Rightarrow> Returns t | _ \<Rightarrow> Throws (type_error w ''replace'')))"

record airesponse =
  result :: jsv
  signature :: jsv

definition normalized :: "world \<Rightarrow> jstring \<Rightarrow> jsv list" where
  "normalized w content = map (to_jsv (w_numval w)) (cleanAndParseJSON (w_lower w) content)"

text \<open>The \<^verbatim>\<open>try\<close> block of \<^verbatim>\<open>generateTopics\<close>, \<^verbatim>\<open>generateHooks\<close> and \<^verbatim>\<open>generateCTA\<close>.\<close>

definition try_list_stage :: "world \<Rightarrow> prompt \<Rightarrow> jsv \<Rightarrow> st \<Rightarrow> airesponse outcome \<times> st" where
  "try_list_stage w p model s =
     (case create_chat w p model s of
        (Throws e, s1) \<Rightarrow> (Throws e, s1)
      | (Returns c, s1) \<Rightarrow>
          (case text_or w (choice_content c) (str ''[]'') of
             Throws e \<Rightarrow> (Throws e, s1)
           | Returns content \<Rightarrow>
               (Returns \<lparr>result = VArr (normalized w content), signature = signature_of c\<rparr>, s1)))"

text \<open>
  Each stage builds its prompt before its \<^verbatim>\<open>try\<close> block: a value that the template holds
  and that has no string conversion, or an intent that is no string (the template calls
  \<^verbatim>\<open>intent.toUpperCase()\<close>), makes the stage throw before any call. What the \<^verbatim>\<open>try\<close> block
  throws is caught: on a 401 while the primary provider is in use the stage switches the
  process to the secondary one and calls itself again, otherwise it returns its fixed
  default.
\<close>

function generateTopics :: "world \<Rightarrow> jsv \<Rightarrow> jsv \<Rightarrow> st \<Rightarrow> airesponse outcome \<times> st" where
  "generateTopics w input model (g, tr) =
     (case to_string w input of
        None \<Rightarrow> (Throws (type_error w ''primitive''), (g, tr))
      | Some i \<Rightarrow>
          (case try_list_stage w (Prompt Topics [i]) model (g, tr) of
             (Returns r, s1) \<Rightarrow> (Returns r, s1)
           | (Throws e, s1) \<Rightarrow>
               if \<not> g \<and> e_status e = VNum 401
               then generateTopics w input model (True, snd s1)
               else (Returns \<lparr>result = VArr [input], signature = VUndefined\<rparr>, s1)))"
  by pat_completeness auto
termination
  by (relation "measure (\<lambda>(w, i, m, g, tr). if g then 0 else 1)") auto

definition hooks_default :: "jstring \<Rightarrow> jsv" where
  "hooks_default topic = VArr [VStr (topic @ str '' is important because...'')]"

function generateHooks_run :: "world \<Rightarrow> jsv \<Rightarrow> jsv \<Rightarrow> jsv \<Rightarrow> st \<Rightarrow> airesponse outcome \<times> st" where
  "generateHooks_run w topic intent model (g, tr) =
     (case to_string w topic of
        None \<Rightarrow> (Throws (type_error w ''primitive''), (g, tr))
      | Some t \<Rightarrow>
          (case intent of
             VStr i \<Rightarrow>
               (case try_list_stage w (Prompt Hooks [t, i]) model (g, tr) of
                  (Returns r, s1) \<Rightarrow> (Returns r, s1)
                | (Throws e, s1) \<Rightarrow>
                    if \<not> g \<and> e_status e = VNum 401
                    then generateHooks_run w topic intent model (True, snd s1)
                    else (Returns \<lparr>result = hooks_default t, signature = VUndefined\<rparr>, s1))
           | _ \<Rightarrow> (Throws (type_error w ''toUpperCase''), (g, tr))))"
  by pat_completeness auto
termination
  by (relation "measure (\<lambda>(w, t, i, m, g, tr). if g then 0 else 1)") auto

text \<open>The parameter \<^verbatim>\<open>intent\<close> has the default \<^verbatim>\<open>'viral'\<close>.\<close>

definition generateHooks :: "world \<Rightarrow> jsv \<Rightarrow> jsv \<Rightarrow> jsv \<Rightarrow> st \<Rightarrow> airesponse outcome \<times> st" where
  "generateHooks w topic intent model s =
     generateHooks_run w topic (if intent = VUndefined then VStr (str ''viral'') else intent) model s"

definition cta_default :: jsv where
  "cta_default = VArr [VStr (str ''Bagaimana menurut kalian?''),
                       VStr (str ''Setuju?'' @ [32, 55357, 56391]),
                       VStr (str ''Share pengalaman kalian!''),
                       VStr (str ''Thoughts?'')]"

text \<open>The template of \<^verbatim>\<open>generateCTA\<close> holds \<^verbatim>\<open>body.substring(0, 150)\<close>: the body must be a
  string.\<close>

function generateCTA :: "world \<Rightarrow> jsv \<Rightarrow> jsv \<Rightarrow> jsv \<Rightarrow> st \<Rightarrow> airesponse outcome \<times> st" where
  "generateCTA w body intent model (g, tr) =
     (case body of
        VStr b \<Rightarrow>
          (case intent of
             VStr i \<Rightarrow>
               (case try_list_stage w (Prompt CTA [take 150 b, i]) model (g, tr) of
                  (Returns r, s1) \<Rightarrow> (Returns r, s1)
                | (Throws e, s1) \<Rightarrow>
                    if \<not> g \<and> e_status e = VNum 401
                    then generateCTA w body intent model (True, snd s1)
                    else (Returns \<lparr>result = cta_default, signature = VUndefined\<rparr>, s1))
           | _ \<Rightarrow> (Throws (type_error w ''toUpperCase''), (g, tr)))
      | _ \<Rightarrow> (Throws (type_error w ''substring''), (g, tr)))"
  by pat_completeness auto
termination
  by (relation "measure (\<lambda>(w, b, i, m, g, tr). if g then 0 else 1)") auto

text \<open>
  \<^verbatim>\<open>generateBody\<close> first searches for \<^verbatim>\<open>context || hook\<close>; when the search or the formatting
  of its results throws, the research text is empty. Then it builds its prompt from the
  hook, the context, the instruction for the length, the intent and the research text,
  and asks the provider. A parsed result that is empty is replaced by the content itself.
\<close>

definition research :: "world \<Rightarrow> jsv \<Rightarrow> jsv \<Rightarrow> st \<Rightarrow> jstring \<times> st" where
  "research w ctx hook s =
     (let q = (if truthy ctx then ctx else hook)
      in ((case w_search w q of Throws e \<Rightarrow> [] | Returns t \<Rightarrow> t), emit (ESearch q) s))"

definition length_instruction :: "jsv \<Rightarrow> jstring" where
  "length_instruction len =
     (if len = VStr (str ''short'')
      then str ''SHORT & PUNCHY. 50-100 words. At least 5 sentences. Keep it tight and impactful.''
      else if len = VStr (str ''long'')
      then str ''LONG FORM. 200-300 words. Deep analysis with multiple sections.''
      else str ''MEDIUM LENGTH. 100-200 words. At least 8 sentences.'')"

definition try_body :: "world \<Rightarrow> prompt \<Rightarrow> jsv \<Rightarrow> st \<Rightarrow> airesponse outcome \<times> st" where
  "try_body w p model s =
     (case create_chat w p model s of
        (Throws e, s1) \<Rightarrow> (Throws e, s1)
      | (Returns c, s1) \<Rightarrow>
          (case text_or w (choice_content c) (str ''[]'') of
             Throws e \<Rightarrow> (Throws e, s1)
           | Returns content \<Rightarrow>
               (if length (normalized w content) > 0
                then (Returns \<lparr>result = VArr (normalized w content), signature = signature_of c\<rparr>, s1)
                else (Returns \<lparr>result = VArr [VStr content], signature = signature_of c\<rparr>, s1))))"

function generateBody :: "world \<Rightarrow> jsv \<Rightarrow> jsv \<Rightarrow> jsv \<Rightarrow> jsv \<Rightarrow> jsv \<Rightarrow> st \<Rightarrow> airesponse outcome \<times> st" where
  "generateBody w hook ctx intent len model (g, tr) =
     (case research w ctx hook (g, tr) of
        (found, s0) \<Rightarrow>
          (case to_string w hook of
             None \<Rightarrow> (Throws (type_error w ''primitive''), s0)
           | Some h \<Rightarrow>
               (case to_string w ctx of
                  None \<Rightarrow> (Throws (type_error w ''primitive''), s0)
                | Some c \<Rightarrow>
                    (case intent of
                       VStr i \<Rightarrow>
                         (case try_body w (Prompt Body [h, c, length_instruction len, i, found])
                                 model (g, snd s0) of
                            (Returns r, s1) \<Rightarrow> (Returns r, s1)
                          | (Throws e, s1) \<Rightarrow>
                              if \<not> g \<and> e_status e = VNum 401
                              then generateBody w hook ctx intent len model (True, snd s1)
                              else (Returns \<lparr>result = VArr [VStr (str ''Error generating body. Please try again.'')],
                                             signature = VUndefined\<rparr>, s1))
                     | _ \<Rightarrow> (Throws (type_error w ''toUpperCase''), s0)))))"
  by pat_completeness auto
termination
  by (relation "measure (\<lambda>(w, h, c, i, l, m, g, tr). if g then 0 else 1)") auto

text \<open>
  \<^verbatim>\<open>getEmojiInstruction\<close> (default \<^verbatim>\<open>'moderate'\<close>) accepts every value.
  \<^verbatim>\<open>getToneInstruction\<close> (default 5) compares its argument with 3 and with 6, which
  converts it to a number. Each of the fixed instruction texts is represented by its
  heading.
\<close>

definition emoji_level :: "jsv \<Rightarrow> jstring" where
  "emoji_level v =
     (case v of
        VNum r \<Rightarrow> (if r \<le> 2 then str ''none'' else if r \<le> 4 then str ''minimal''
                   else if r \<le> 7 then str ''moderate'' else str ''rich'')
      | VStr s \<Rightarrow> (if s = str ''none'' \<or> s = str ''minimal'' \<or> s = str ''rich'' then s
                   else str ''moderate'')
      | _ \<Rightarrow> str ''moderate'')"

definition getEmojiInstruction :: "jsv \<Rightarrow> jstring" where
  "getEmojiInstruction v =
     (let level = emoji_level v
      in if level = str ''none'' then str ''EMOJI USAGE: NONE (SERIOUS/PROFESSIONAL)''
         else if level = str ''minimal'' then str ''EMOJI USAGE: MINIMAL (SUBTLE)''
         else if level = str ''rich'' then str ''EMOJI USAGE: RICH (VERY LIVELY)''
         else str ''EMOJI USAGE: MODERATE (BALANCED)'')"

definition getToneInstruction :: "world \<Rightarrow> jsv \<Rightarrow> jstring outcome" where
  "getToneInstruction w v =
     (case (if v = VUndefined then Returns (Some 5) else toNumber w v) of
        Throws e \<Rightarrow> Throws e
      | Returns None \<Rightarrow> Returns (str ''TONE: SOCIAL & CONVERSATIONAL (CLOSE FRIEND)'')
      | Returns (Some r) \<Rightarrow>
          Returns (if r \<le> 3 then str ''TONE: AUTHORITATIVE & ANALYTICAL''
                   else if r \<le> 6 then str ''TONE: BALANCED (PROFESSIONAL YET APPROACHABLE)''
                   else str ''TONE: SOCIAL & CONVERSATIONAL (CLOSE FRIEND)''))"

text \<open>\<^verbatim>\<open>polishContent\<close>: the prompt holds the content and the two instructions; the result
  is the provider's content, or the given content when that is falsy.\<close>

definition try_polish :: "world \<Rightarrow> prompt \<Rightarrow> jsv \<Rightarrow> st \<Rightarrow> airesponse outcome \<times> st" where
  "try_polish w p content s =
     (case create_chat w p VUndefined s of
        (Throws e, s1) \<Rightarrow> (Throws e, s1)
      | (Returns c, s1) \<Rightarrow>
          (Returns \<lparr>result = (if truthy (choice_content c) then choice_content c else content),
                    signature = signature_of c\<rparr>, s1))"

function polishContent :: "world \<Rightarrow> jsv \<Rightarrow> jsv \<Rightarrow> jsv \<Rightarrow> st \<Rightarrow> airesponse outcome \<times> st" where
  "polishContent w content tone emojiDensity (g, tr) =
     (case getToneInstruction w tone of
        Throws e \<Rightarrow> (Throws e, (g, tr))
      | Returns t \<Rightarrow>
          (case to_string w content of
             None \<Rightarrow> (Throws (type_error w ''primitive''), (g, tr))
           | Some c \<Rightarrow>
               (case try_polish w (Prompt Polish [c, t, getEmojiInstruction emojiDensity]) content (g, tr) of
                  (Returns r, s1) \<Rightarrow> (Returns r, s1)
                | (Throws e, s1) \<Rightarrow>
                    if \<not> g \<and> e_status e = VNum 401
                    then polishContent w content tone emojiDensity (True, snd s1)
                    else (Returns \<lparr>result = content, signature = VUndefined\<rparr>, s1))))"
  by pat_completeness auto
termination
  by (relation "measure (\<lambda>(w, c, t, d, g, tr). if g then 0 else 1)") auto

subsection \<open>The tiered orchestrator\<close>

text \<open>\<^verbatim>\<open>await\<close> in sequence: what an awaited call throws is thrown on.\<close>

definition and_then :: "'a outcome \<times> st \<Rightarrow> ('a \<Rightarrow> st \<Rightarrow> 'b outcome \<times> st) \<Rightarrow> 'b outcome \<times> st" where
  "and_then m f = (case m of (Throws e, s) \<Rightarrow> (Throws e, s) | (Returns x, s) \<Rightarrow> f x s)"

text \<open>\<^verbatim>\<open>v[0]\<close>\<close>

definition first_of :: "world \<Rightarrow> jsv \<Rightarrow> jsv outcome" where
  "first_of w v =
     (case v of
        VUndefined \<Rightarrow> Throws (type_error w ''0'')
      | VNull \<Rightarrow> Throws (type_error w ''0'')
      | VArr xs \<Rightarrow> Returns (case xs of [] \<Rightarrow> VUndefined | x # _ \<Rightarrow> x)
      | VStr cs \<Rightarrow> Returns (case cs of [] \<Rightarrow> VUndefined | c # _ \<Rightarrow> VStr [c])
      | VObj ms \<Rightarrow> Returns (case map_of ms (str ''0'') of None \<Rightarrow> VUndefined | Some x \<Rightarrow> x)
      | _ \<Rightarrow> Returns VUndefined)"

text \<open>The calls the three tiers share: topics, the first topic, hooks for it, and bodies of
  the tier's length for the first hook. It returns the topic, the hooks and the bodies.\<close>

definition topic_hooks_bodies ::
  "world \<Rightarrow> string \<Rightarrow> st \<Rightarrow> (jsv \<times> airesponse \<times> airesponse) outcome \<times> st" where
  "topic_hooks_bodies w len s =
     and_then (generateTopics w (VStr (str ''AI in Marketing'')) VUndefined s) (\<lambda>topicsRes s1.
     and_then (first_of w (result topicsRes), s1) (\<lambda>selectedTopic s2.
     and_then (generateHooks w selectedTopic (VStr (str ''educational'')) VUndefined s2) (\<lambda>hooksRes s3.
     and_then (first_of w (result hooksRes), s3) (\<lambda>hook s4.
     and_then (generateBody w hook selectedTopic (VStr (str ''educational'')) (VStr (str len))
                 VUndefined s4) (\<lambda>bodiesRes s5.
       (Returns (selectedTopic, hooksRes, bodiesRes), s5))))))"

definition tier1 :: "world \<Rightarrow> st \<Rightarrow> jsv outcome \<times> st" where
  "tier1 w s =
     and_then (topic_hooks_bodies w ''short'' s) (\<lambda>(selectedTopic, hooksRes, bodiesRes) s1.
     and_then (first_of w (result hooksRes), s1) (\<lambda>hook s2.
     and_then (first_of w (result bodiesRes), s2) (\<lambda>body s3.
       (Returns (VObj [(str ''tier'', VNum 1), (str ''topic'', selectedTopic), (str ''hook'', hook),
                       (str ''body'', body), (str ''status'', VStr (str ''completed''))]), s3))))"

definition tier2 :: "world \<Rightarrow> st \<Rightarrow> jsv outcome \<times> st" where
  "tier2 w s =
     and_then (topic_hooks_bodies w ''medium'' s) (\<lambda>(selectedTopic, hooksRes, bodiesRes) s1.
       (Returns (VObj [(str ''tier'', VNum 2), (str ''topic'', selectedTopic),
                       (str ''hooks'', result hooksRes), (str ''bodyOptions'', result bodiesRes),
                       (str ''status'', VStr (str ''completed''))]), s1))"

definition tier3 :: "world \<Rightarrow> st \<Rightarrow> jsv outcome \<times> st" where
  "tier3 w s =
     and_then (topic_hooks_bodies w ''long'' s) (\<lambda>(selectedTopic, hooksRes, bodiesRes) s1.
     and_then (first_of w (result bodiesRes), s1) (\<lambda>body s2.
     and_then (generateCTA w body (VStr (str ''educational'')) VUndefined s2) (\<lambda>ctasRes s3.
     and_then (polishContent w body (VNum 8) (VNum 5) s3) (\<lambda>polishedRes s4.
       (Returns (VObj [(str ''tier'', VNum 3), (str ''topic'', selectedTopic),
                       (str ''hooks'', result hooksRes), (str ''bodies'', result bodiesRes),
                       (str ''ctas'', result ctasRes), (str ''finalPolished'', result polishedRes),
                       (str ''status'', VStr (str ''completed''))]), s4)))))"

text \<open>
  \<^verbatim>\<open>generateTieredContent(tier, contentId)\<close> first logs a template that holds both
  arguments, outside its \<^verbatim>\<open>try\<close> block: an argument without string conversion makes it
  throw the \<^verbatim>\<open>TypeError\<close>. Then the tier is compared with \<^verbatim>\<open>===\<close>; when none of the three
  branches is taken the function ends without a \<^verbatim>\<open>return\<close>, so its value is \<^verbatim>\<open>undefined\<close>.
  Whatever a branch throws is replaced by one fixed error.
\<close>

definition generateTieredContent :: "world \<Rightarrow> jsv \<Rightarrow> jsv \<Rightarrow> st \<Rightarrow> jsv outcome \<times> st" where
  "generateTieredContent w tier contentId s0 =
     (let s = emit (EOrchestrator tier contentId) s0
      in if \<not> logs w [tier, contentId] then (Throws (type_error w ''primitive''), s)
         else case (if tier = VNum 1 then tier1 w s
                    else if tier = VNum 2 then tier2 w s
                    else if tier = VNum 3 then tier3 w s
                    else (Returns VUndefined, s)) of
                (Throws e, s') \<Rightarrow> (Throws (Exn (VStr (str ''AI generation failed'')) VUndefined), s')
              | (Returns v, s') \<Rightarrow> (Returns v, s'))"

subsection \<open>The handlers\<close>

text \<open>
  A handler takes the parsed body (for the one GET route, the query) and the process
  state, and gives the response and the new state. \<^verbatim>\<open>res.json(x)\<close> without \<^verbatim>\<open>status\<close> answers
  200. A property whose value is \<^verbatim>\<open>undefined\<close> is kept in the payload here; serialisation
  drops it. Every handler body is one \<^verbatim>\<open>try\<close> block; where it logs a template literal, a
  value without string conversion takes it to its \<^verbatim>\<open>catch\<close>.
\<close>

definition failure :: "nat \<Rightarrow> string \<Rightarrow> response" where
  "failure c msg = respond c [(''success'', VBool False), (''error'', VStr (str msg))]"

definition payment_args :: "body \<Rightarrow> jsv list" where
  "payment_args b = [prop_of b ''user'', prop_of b ''tier'', prop_of b ''contentId'',
                     prop_of b ''nonce'', prop_of b ''deadline'', prop_of b ''signature'']"

text \<open>
  \<^verbatim>\<open>/api/payment\<close>: the presence test, the log of user and tier, the set-up of the
  contract, the verification (in a \<^verbatim>\<open>try\<close> of its own), the execution with the log of the
  transaction hash (in a \<^verbatim>\<open>try\<close> of its own), the confirmation with the log of the receipt
  hash, and the orchestrator.
\<close>

definition payment_handler :: "world \<Rightarrow> body \<Rightarrow> st \<Rightarrow> response \<times> st" where
  "payment_handler w b s =
     (if \<not> truthy (prop_of b ''user'') \<or> \<not> truthy (prop_of b ''tier'')
         \<or> \<not> truthy (prop_of b ''contentId'') \<or> prop_of b ''nonce'' = VUndefined
         \<or> \<not> truthy (prop_of b ''deadline'') \<or> \<not> truthy (prop_of b ''signature'')
      then (failure 400 ''Missing required fields'', s)
      else if \<not> logs w [prop_of b ''user'', prop_of b ''tier'']
      then (failure 500 ''Internal server error'', s)
      else
        (case w_wallet w of
           Throws e \<Rightarrow> (failure 500 ''Internal server error'', s)
         | Returns facilitator \<Rightarrow>
             (case w_verify w (payment_args b) of
                Throws e \<Rightarrow>
                  (failure 500 ''Contract verification failed'', emit (EVerify (payment_args b)) s)
              | Returns (isValid, reason) \<Rightarrow>
                  if \<not> isValid
                  then (respond 402 [(''success'', VBool False), (''error'', VStr reason)],
                        emit (EVerify (payment_args b)) s)
                  else
                    (let s2 = emit (EExecute (payment_args b)) (emit (EVerify (payment_args b)) s)
                     in case w_execute w (payment_args b) of
                          Throws e \<Rightarrow> (failure 500 ''Transaction execution failed'', s2)
                        | Returns t \<Rightarrow>
                            if \<not> logs w [tx_hash t]
                            then (failure 500 ''Transaction execution failed'', s2)
                            else
                              (case tx_wait t of
                                 Throws e \<Rightarrow> (failure 500 ''Internal server error'', emit EWait s2)
                               | Returns rc \<Rightarrow>
                                   if r_status rc \<noteq> VNum 1
                                   then (failure 500 ''Transaction reverted'', emit EWait s2)
                                   else if \<not> logs w [r_hash rc]
                                   then (failure 500 ''Internal server error'', emit EWait s2)
                                   else
                                     (case generateTieredContent w (prop_of b ''tier'')
                                             (prop_of b ''contentId'') (emit EWait s2) of
                                        (Throws e, s3) \<Rightarrow> (failure 500 ''Internal server error'', s3)
                                      | (Returns aiResult, s3) \<Rightarrow>
                                          (respond 200 [(''success'', VBool True),
                                                        (''txHash'', r_hash rc),
                                                        (''result'', aiResult)], s3)))))))"

text \<open>The table \<^verbatim>\<open>TIERS\<close>, whose keys are 1, 2 and 3, read at \<^verbatim>\<open>Number(tier)\<close>.\<close>

definition TIERS :: "real option \<Rightarrow> int option" where
  "TIERS k =
     (case k of
        None \<Rightarrow> None
      | Some r \<Rightarrow> if r = 1 then Some 5000000
                  else if r = 2 then Some 15000000
                  else if r = 3 then Some 30000000
                  else None)"

text \<open>\<^verbatim>\<open>error.message || dflt\<close>\<close>

definition message_or :: "exn \<Rightarrow> string \<Rightarrow> jsv" where
  "message_or e dflt = (if truthy (e_message e) then e_message e else VStr (str dflt))"

definition execute_failed :: "exn \<Rightarrow> response" where
  "execute_failed e = respond 500 [(''success'', VBool False), (''error'', message_or e ''Execution failed'')]"

text \<open>
  \<^verbatim>\<open>/api/execute-payment\<close>: the presence test, the log of address and tier, the set-up of
  the wallet and the log of its address, the price of the tier, the allowance, the
  balance, the transfer with the log of its hash, the confirmation with the log of the
  receipt hash.
\<close>

definition execute_payment_handler :: "world \<Rightarrow> body \<Rightarrow> st \<Rightarrow> response \<times> st" where
  "execute_payment_handler w b s =
     (let userAddress = prop_of b ''userAddress''; tier = prop_of b ''tier''
      in if \<not> truthy userAddress \<or> \<not> truthy tier
         then (failure 400 ''Missing userAddress or tier'', s)
         else if \<not> logs w [userAddress, tier]
         then (execute_failed (type_error w ''primitive''), s)
         else
           (case w_wallet w of
              Throws e \<Rightarrow> (execute_failed e, s)
            | Returns facilitator \<Rightarrow>
                if \<not> logs w [facilitator]
                then (execute_failed (type_error w ''primitive''), s)
                else
                (case toNumber w tier of
                   Throws e \<Rightarrow> (execute_failed e, s)
                 | Returns n \<Rightarrow>
                (case TIERS n of
                   None \<Rightarrow> (failure 400 ''Invalid tier'', s)
                 | Some amount \<Rightarrow>
                     (let s1 = emit (EAllowance userAddress facilitator) s
                      in case w_allowance w userAddress facilitator of
                           Throws e \<Rightarrow> (execute_failed e, s1)
                         | Returns allowance \<Rightarrow>
                             if allowance < amount
                             then (respond 400
                                     [(''success'', VBool False),
                                      (''error'', VStr (str ''Insufficient USDC allowance. Please enable permissionless mode first.'')),
                                      (''needsApproval'', VBool True)], s1)
                             else
                               (let s2 = emit (EBalanceOf userAddress) s1
                                in case w_balanceOf w userAddress of
                                     Throws e \<Rightarrow> (execute_failed e, s2)
                                   | Returns balance \<Rightarrow>
                                       if balance < amount
                                       then (failure 400 ''Insufficient USDC balance'', s2)
                                       else
                                         (let s3 = emit (ETransferFrom userAddress facilitator amount) s2
                                          in case w_transferFrom w userAddress facilitator amount of
                                               Throws e \<Rightarrow> (execute_failed e, s3)
                                             | Returns t \<Rightarrow>
                                                 if \<not> logs w [tx_hash t]
                                                 then (execute_failed (type_error w ''primitive''), s3)
                                                 else
                                                 (case tx_wait t of
                                                    Throws e \<Rightarrow> (execute_failed e, emit EWait s3)
                                                  | Returns rc \<Rightarrow>
                                                      if r_status rc \<noteq> VNum 1
                                                      then (execute_failed
                                                              (Exn (VStr (str ''Transaction reverted'')) VUndefined),
                                                            emit EWait s3)
                                                      else if \<not> logs w [r_hash rc]
                                                      then (execute_failed (type_error w ''primitive''),
                                                            emit EWait s3)
                                                      else
                                                        (respond 200
                                                           [(''success'', VBool True),
                                                            (''contentId'', VStr (w_content_id w)),
                                                            (''txHash'', r_hash rc),
                                                            (''content'',
                                                               VObj [(str ''tier'', tier),
                                                                     (str ''title'', VStr (str ''AI Generated Content'')),
                                                                     (str ''content'', VStr (str ''Content generation triggered successfully via permissionless flow.''))])],
                                                         emit EWait s3)))))))))"

text \<open>The faucet sends 100 units of a token with 6 decimals. It logs the address after the
  wallet is set up, and the transaction hash after the transfer.\<close>

definition faucet_failed :: "exn \<Rightarrow> response" where
  "faucet_failed e = respond 500 [(''error'', message_or e ''Faucet failed'')]"

definition faucet_handler :: "world \<Rightarrow> body \<Rightarrow> st \<Rightarrow> response \<times> st" where
  "faucet_handler w b s =
     (let userAddress = prop_of b ''userAddress''
      in if \<not> truthy userAddress
         then (respond 400 [(''error'', VStr (str ''Missing userAddress''))], s)
         else
           (case w_faucet_wallet w of
              Throws e \<Rightarrow> (faucet_failed e, s)
            | Returns wallet \<Rightarrow>
                if \<not> logs w [userAddress]
                then (faucet_failed (type_error w ''primitive''), s)
                else
                (case w_tx_count w of
                   Throws e \<Rightarrow> (faucet_failed e, emit ETxCount s)
                 | Returns nonce \<Rightarrow>
                     (let s2 = emit (ETransfer userAddress 100000000 nonce) (emit ETxCount s)
                      in case w_transfer w userAddress 100000000 nonce of
                           Throws e \<Rightarrow> (faucet_failed e, s2)
                         | Returns t \<Rightarrow>
                             if \<not> logs w [tx_hash t]
                             then (faucet_failed (type_error w ''primitive''), s2)
                             else
                             (case tx_wait t of
                                Throws e \<Rightarrow> (faucet_failed e, emit EWait s2)
                              | Returns rc \<Rightarrow>
                                  (respond 200 [(''success'', VBool True), (''txHash'', tx_hash t)],
                                   emit EWait s2))))))"

text \<open>\<^verbatim>\<open>fetchEigenGrantMessage\<close>: one request to the grant API; a response that is not ok is
  thrown as an error that carries its text.\<close>

definition fetchEigenGrantMessage :: "world \<Rightarrow> jstring \<Rightarrow> st \<Rightarrow> jstring outcome \<times> st" where
  "fetchEigenGrantMessage w address s =
     (case w_grant_api w address of
        Throws e \<Rightarrow> (Throws e, emit (EGrantFetch address) s)
      | Returns (ok, txt) \<Rightarrow>
          if \<not> ok
          then (Throws (Exn (VStr (str ''Eigen API Error: '' @ txt)) VUndefined), emit (EGrantFetch address) s)
          else (Returns txt, emit (EGrantFetch address) s))"

definition grant_message_handler :: "world \<Rightarrow> body \<Rightarrow> st \<Rightarrow> response \<times> st" where
  "grant_message_handler w q s =
     (case prop_of q ''address'' of
        VStr address \<Rightarrow>
          if address = []
          then (respond 400 [(''error'', VStr (str ''Missing wallet address''))], s)
          else (case fetchEigenGrantMessage w address s of
                  (Throws e, s1) \<Rightarrow> (respond 500 [(''error'', e_message e)], s1)
                | (Returns message, s1) \<Rightarrow> (respond 200 [(''message'', VStr message)], s1))
      | _ \<Rightarrow> (respond 400 [(''error'', VStr (str ''Missing wallet address''))], s))"

definition stage_response :: "airesponse \<Rightarrow> response" where
  "stage_response r = respond 200 [(''result'', result r), (''signature'', signature r)]"

text \<open>
  \<^verbatim>\<open>/api/generate\<close> logs the step and the model, and with a truthy \<^verbatim>\<open>grantMessage\<close> the wallet
  address, before it looks at the step. \<open>generate_logs\<close> says that these logs go through.
\<close>

definition generate_logs :: "world \<Rightarrow> body \<Rightarrow> bool" where
  "generate_logs w b =
     (logs w [prop_of b ''step'', prop_of b ''model'']
      \<and> (truthy (prop_of b ''grantMessage'') \<longrightarrow> logs w [prop_of b ''walletAddress'']))"

definition generate_handler :: "world \<Rightarrow> body \<Rightarrow> st \<Rightarrow> response \<times> st" where
  "generate_handler w b s =
     (if \<not> generate_logs w b
      then (respond 500 [(''error'', VStr (str ''Failed to generate content''))], s)
      else
        (let step = prop_of b ''step'';
             run = (if step = VStr (str ''topics'')
                    then Some (generateTopics w (prop_of b ''input'') (prop_of b ''model'') s)
                    else if step = VStr (str ''hooks'')
                    then Some (generateHooks w (prop_of b ''input'') (prop_of b ''intent'') (prop_of b ''model'') s)
                    else if step = VStr (str ''body'')
                    then Some (generateBody w (prop_of b ''input'') (prop_of b ''context'') (prop_of b ''intent'')
                                 (prop_of b ''length'') (prop_of b ''model'') s)
                    else if step = VStr (str ''cta'')
                    then Some (generateCTA w (prop_of b ''input'') (prop_of b ''intent'') (prop_of b ''model'') s)
                    else None)
         in case run of
              None \<Rightarrow> (respond 400 [(''error'', VStr (str ''Invalid step''))], s)
            | Some (Throws e, s1) \<Rightarrow> (respond 500 [(''error'', VStr (str ''Failed to generate content''))], s1)
            | Some (Returns r, s1) \<Rightarrow> (stage_response r, s1)))"

definition polish_handler :: "world \<Rightarrow> body \<Rightarrow> st \<Rightarrow> response \<times> st" where
  "polish_handler w b s =
     (case polishContent w (prop_of b ''content'') (prop_of b ''tone'') (prop_of b ''emojiDensity'') s of
        (Throws e, s1) \<Rightarrow> (respond 500 [(''error'', VStr (str ''Failed to polish content''))], s1)
      | (Returns r, s1) \<Rightarrow> (stage_response r, s1))"

definition health_handler :: "st \<Rightarrow> response \<times> st" where
  "health_handler s =
     (respond 200 [(''status'', VStr (str ''ok'')), (''message'', VStr (str ''AI Backend is running''))], s)"

text \<open>The HTTP surface.\<close>

datatype endpoint = Generate | PolishRoute | Payment | ExecutePayment | Faucet | GrantMessage | Health

definition handle :: "world \<Rightarrow> endpoint \<Rightarrow> body \<Rightarrow> st \<Rightarrow> response \<times> st" where
  "handle w ep b s =
     (case ep of
        Generate \<Rightarrow> generate_handler w b s
      | PolishRoute \<Rightarrow> polish_handler w b s
      | Payment \<Rightarrow> payment_handler w b s
      | ExecutePayment \<Rightarrow> execute_payment_handler w b s
      | Faucet \<Rightarrow> faucet_handler w b s
      | GrantMessage \<Rightarrow> grant_message_handler w b s
      | Health \<Rightarrow> health_handler s)"

text \<open>The fields each endpoint requires (section 6 of the specification; the fields it
  marks with a question mark are optional).\<close>

definition required_fields :: "endpoint \<Rightarrow> string list" where
  "required_fields ep =
     (case ep of
        Generate \<Rightarrow> [''step'', ''input'', ''context'', ''intent'', ''length'', ''model'']
      | PolishRoute \<Rightarrow> [''content'', ''tone'', ''emojiDensity'']
      | Payment \<Rightarrow> [''user'', ''tier'', ''contentId'', ''nonce'', ''deadline'', ''signature'']
      | ExecutePayment \<Rightarrow> [''userAddress'', ''tier'']
      | Faucet \<Rightarrow> [''userAddress'']
      | GrantMessage \<Rightarrow> [''address'']
      | Health \<Rightarrow> [])"

subsection \<open>A concrete world and concrete requests\<close>

text \<open>
  In \<open>demo_world\<close> the model provider and the search are unreachable, the contract rejects
  every signature and no allowance has been granted; \<open>paying_world\<close> differs in that the
  contract accepts the signature.
\<close>

definition demo_world :: world where
  "demo_world =
     \<lparr>w_lower = id,
      w_numval = (\<lambda>l. 0),
      w_number_text = (\<lambda>r. if r = 1 then str ''1'' else if r = 2 then str ''2''
                            else if r = 3 then str ''3'' else if r = 4 then str ''4'' else str ''0''),
      w_text_number = (\<lambda>t. None),
      w_type_error = (\<lambda>operation. str ''Cannot convert object to primitive value''),
      w_eigen_model = str ''gpt-oss-120b-f16'',
      w_chat = (\<lambda>g p m. Throws (Exn (VStr (str ''connection refused'')) VUndefined)),
      w_search = (\<lambda>q. Throws (Exn (VStr (str ''connection refused'')) VUndefined)),
      w_wallet = Returns (VStr (str ''0xFACE'')),
      w_faucet_wallet = Returns (VStr (str ''0xFACE'')),
      w_verify = (\<lambda>a. Returns (False, str ''Invalid signature'')),
      w_execute = (\<lambda>a. Returns \<lparr>tx_hash = VStr (str ''0xabc''),
                                   tx_wait = Returns \<lparr>r_status = VNum 1, r_hash = VStr (str ''0xabc'')\<rparr>\<rparr>),
      w_allowance = (\<lambda>u f. Returns 0),
      w_balanceOf = (\<lambda>u. Returns 0),
      w_transferFrom = (\<lambda>u f a. Throws (Exn (VStr (str ''reverted'')) VUndefined)),
      w_tx_count = Returns 0,
      w_transfer = (\<lambda>u a n. Throws (Exn (VStr (str ''reverted'')) VUndefined)),
      w_content_id = str ''linkid-0-abcdefgh'',
      w_grant_api = (\<lambda>a. Returns (True, str ''grant''))\<rparr>"

definition paying_world :: world where
  "paying_world = demo_world\<lparr>w_verify := (\<lambda>a. Returns (True, []))\<rparr>"

text \<open>The value \<^verbatim>\<open>{"toString": 1}\<close>, which has no string conversion.\<close>

definition no_text :: jsv where
  "no_text = VObj [(str ''toString'', VNum 1)]"

definition demo_payment :: body where
  "demo_payment = [(str ''user'', VStr (str ''0xUSER'')), (str ''tier'', VNum 4),
                   (str ''contentId'', VStr (str ''c-1'')), (str ''nonce'', VNum 0),
                   (str ''deadline'', VNum 1900000000), (str ''signature'', VStr (str ''0xSIG''))]"

definition payment_no_nonce :: body where
  "payment_no_nonce = [(str ''user'', VStr (str ''0xUSER'')), (str ''tier'', VNum 1),
                       (str ''contentId'', VStr (str ''c-1'')),
                       (str ''deadline'', VNum 1900000000), (str ''signature'', VStr (str ''0xSIG''))]"

definition payment_odd_id :: body where
  "payment_odd_id = [(str ''user'', VStr (str ''0xUSER'')), (str ''tier'', VNum 4),
                     (str ''contentId'', no_text), (str ''nonce'', VNum 0),
                     (str ''deadline'', VNum 1900000000), (str ''signature'', VStr (str ''0xSIG''))]"

definition demo_execute :: body where
  "demo_execute = [(str ''userAddress'', VStr (str ''0xUSER'')), (str ''tier'', VNum 2)]"

definition demo_topics :: body where
  "demo_topics = [(str ''step'', VStr (str ''topics''))]"

definition generate_no_step :: body where
  "generate_no_step = [(str ''input'', VStr (str ''AI in Marketing'')), (str ''model'', VStr (str ''gpt-oss''))]"

definition generate_odd_model :: body where
  "generate_odd_model = [(str ''input'', VStr (str ''AI in Marketing'')), (str ''model'', no_text)]"

lemmas service_defs =
  handle_def payment_handler_def payment_args_def execute_payment_handler_def faucet_handler_def
  grant_message_handler_def generate_handler_def polish_handler_def health_handler_def
  prop_of_def str_def respond_def failure_def emit_def Let_def TIERS_def toNumber_def
  required_fields_def demo_world_def paying_world_def demo_payment_def demo_execute_def
  demo_topics_def generateTieredContent_def try_polish_def try_list_stage_def create_chat_def
  resolveModelId_def stage_response_def logs_def generate_logs_def no_text_def type_error_def
  payment_no_nonce_def payment_odd_id_def generate_no_step_def generate_odd_model_def
  getToneInstruction_def getEmojiInstruction_def emoji_level_def


section \<open>Properties of the normalizer\<close>

text \<open>
  C6. For the input \<^verbatim>\<open>["a", "b", "c"]\<close> the normalizer returns exactly the three strings
  a, b, c, in that order. Both variants do.
\<close>

theorem C6_json_array_literal:
  \<open>cleanAndParseJSON lc (str ''["a", "b", "c"]'')
     = [JString (str ''a''), JString (str ''b''), JString (str ''c'')]
   \<and> cleanAndParseJSON_simple lc (str ''["a", "b", "c"]'')
     = [JString (str ''a''), JString (str ''b''), JString (str ''c'')]\<close>
  by (simp add: normalizer_defs)

text \<open>
  C4. For the input of three ordinal-marked lines the claim expects three items, each
  without its ordinal. The cascade splits at a line break followed by a marker, so the
  marker of the first line, which no line break precedes, stays: it returns
  \<^verbatim>\<open>"1. First item"\<close>, \<^verbatim>\<open>"Second item"\<close>, \<^verbatim>\<open>"Third item"\<close>. The simpler variant
  removes the ordinal of every line and returns the three items the claim expects.
\<close>

theorem C4_first_ordinal_stays:
  \<open>cleanAndParseJSON lc (str ''1. First item\<newline>2. Second item\<newline>3. Third item'')
     = [JString (str ''1. First item''), JString (str ''Second item''), JString (str ''Third item'')]
   \<and> cleanAndParseJSON_simple lc (str ''1. First item\<newline>2. Second item\<newline>3. Third item'')
     = [JString (str ''First item''), JString (str ''Second item''), JString (str ''Third item'')]\<close>
  by (simp add: normalizer_defs)

text \<open>
  C1 (amended). The normalizer is a total function: every exception of the source is
  caught inside it. Whenever step 2 does not return a parsed array, the result is a
  sequence of strings with at least one element. The elements need not be non-empty
  (the last resort returns the original text, whatever it is), and an array that step 2
  parsed is returned as it is.
\<close>

theorem C1_fallback_nonempty:
  assumes "json_extraction (clean_fences text) = Fallthrough"
  shows "cleanAndParseJSON lc text \<noteq> [] \<and> list_all is_string (cleanAndParseJSON lc text)"
proof -
  have m: "\<And>xs. list_all is_string (map JString xs)"
    by (simp add: list_all_iff)
  have n: "\<And>xs::jstring list. 1 < length xs \<Longrightarrow> map JString xs \<noteq> []"
    by auto
  show ?thesis
    unfolding cleanAndParseJSON_def Let_def using assms m n by simp
qed

theorem C1_fallback_nonempty_witness:
  "json_extraction (clean_fences (str [])) = Fallthrough
   \<and> cleanAndParseJSON id (str []) \<noteq> []
   \<and> list_all is_string (cleanAndParseJSON id (str []))"
proof -
  have h: "json_extraction (clean_fences (str [])) = Fallthrough"
    by (simp add: normalizer_defs)
  show ?thesis
    using h C1_fallback_nonempty[OF h, of id] by simp
qed

text \<open>The claim as stated fails: the empty input gives one empty string, and the input
  \<^verbatim>\<open>[]\<close> gives the empty sequence.\<close>

theorem C1_counterexample:
  "cleanAndParseJSON id (str []) = [JString []]
   \<and> \<not> list_all nonempty_string (cleanAndParseJSON id (str []))
   \<and> cleanAndParseJSON id (str ''[]'') = []"
  by (simp add: normalizer_defs)

text \<open>
  C8 (amended). For every input with no opening bracket, no quoted-list pattern (the
  cleaned text neither contains \<^verbatim>\<open>", "\<close> nor starts with a quote), no list marker after a
  line break and no blank line, the normalizer returns one element, which is the input
  itself, not trimmed.
\<close>

theorem C8_single_paragraph:
  assumes "91 \<notin> set text"
    and \<open>\<not> str_includes (clean_fences text) (str ''", "'')\<close>
    and \<open>\<not> starts_with (clean_fences text) (str ''"'')\<close>
    and "\<not> has_match list_marker_re True True text"
    and "\<not> has_match paragraph_re False True text"
  shows "cleanAndParseJSON lc text = [JString text]"
proof -
  have "91 \<notin> set (clean_fences text)" using assms(1) set_clean_fences by blast
  then have j: "json_extraction (clean_fences text) = Fallthrough"
    by (rule json_extraction_no_bracket)
  have v: "length (validItems lc text) \<le> 1"
    unfolding validItems_def using split_re_no_match[OF assms(4)] by simp
  have p: "length (paragraphs text) \<le> 1"
    unfolding paragraphs_def using split_re_no_match[OF assms(5)] by simp
  show ?thesis
    unfolding cleanAndParseJSON_def using j v p assms(2,3) by (simp add: Let_def)
qed

theorem C8_single_paragraph_witness:
  \<open>91 \<notin> set (str '' One plain paragraph.\<newline>'')
   \<and> \<not> str_includes (clean_fences (str '' One plain paragraph.\<newline>'')) (str ''", "'')
   \<and> \<not> starts_with (clean_fences (str '' One plain paragraph.\<newline>'')) (str ''"'')
   \<and> \<not> has_match list_marker_re True True (str '' One plain paragraph.\<newline>'')
   \<and> \<not> has_match paragraph_re False True (str '' One plain paragraph.\<newline>'')
   \<and> cleanAndParseJSON id (str '' One plain paragraph.\<newline>'')
       = [JString (str '' One plain paragraph.\<newline>'')]\<close>
proof -
  have h1: "91 \<notin> set (str '' One plain paragraph.\<newline>'')"
    by (simp add: str_def)
  have h2: \<open>\<not> str_includes (clean_fences (str '' One plain paragraph.\<newline>'')) (str ''", "'')\<close>
    by (simp add: normalizer_defs)
  have h3: \<open>\<not> starts_with (clean_fences (str '' One plain paragraph.\<newline>'')) (str ''"'')\<close>
    by (simp add: normalizer_defs)
  have h4: "\<not> has_match list_marker_re True True (str '' One plain paragraph.\<newline>'')"
    by (simp add: normalizer_defs)
  have h5: "\<not> has_match paragraph_re False True (str '' One plain paragraph.\<newline>'')"
    by (simp add: normalizer_defs)
  show ?thesis
    using h1 h2 h3 h4 h5 C8_single_paragraph[OF h1 h2 h3 h4 h5, of id] by simp
qed

text \<open>The claim as stated fails: the element is not the trimmed input.\<close>

theorem C8_counterexample:
  "cleanAndParseJSON id (str '' One plain paragraph.\<newline>'')
     \<noteq> [JString (trim (str '' One plain paragraph.\<newline>''))]"
  by (simp add: normalizer_defs)

text \<open>
  C9 (amended). For every input that is the line "Here are some options:" followed by at
  least two marked lines with real items, in the sense above, and then by white space or
  nothing: whenever step 2 finds no JSON array in the text and step 3A does not return,
  the normalizer returns exactly the items, without surrounding white space and in
  order; the preamble line is not among them.
\<close>

theorem C9_marked_list:
  assumes "2 \<le> length entries"
    and "list_all (well_marked lc) entries"
    and "list_all is_space tail"
    and "json_extraction (clean_fences (marked_text entries @ tail)) = Fallthrough"
    and "\<not> quoted_list_accepted (clean_fences (marked_text entries @ tail))"
  shows "cleanAndParseJSON lc (marked_text entries @ tail)
           = map (\<lambda>e. JString (trim (l_item e))) entries
       \<and> JString (str ''Here are some options:'')
           \<notin> set (cleanAndParseJSON lc (marked_text entries @ tail))"
proof -
  let ?pre = "str ''Here are some options:''"
  let ?text = "marked_text entries @ tail"
  let ?items = "map (\<lambda>e. trim (l_item e)) entries"
  have items: "\<And>e. e \<in> set entries \<Longrightarrow>
      keep_item lc (trim (l_item e)) \<and> \<not> has_match artifact_re False True (trim (l_item e))"
    using assms(2) by (auto simp: list_all_iff well_marked_def real_item_def)
  have pre: "?pre \<noteq> []" "10 \<notin> set ?pre" "13 \<notin> set ?pre"
    by (simp_all add: str_def)
  have tp: "trim ?pre = ?pre" by (simp add: str_def trim_def is_space_def)
  have tx: "?text = ?pre @ concat (map line_text entries) @ tail"
    by (simp add: marked_text_def)
  have ne: "?pre @ concat (map line_text entries) @ tail \<noteq> []"
    using pre(1) by simp
  have sr: "split_re list_marker_re True (?pre @ concat (map line_text entries) @ tail)
              = gsplit list_marker_re True True True (?pre @ concat (map line_text entries) @ tail)"
    using ne by (simp only: split_re_def if_False)
  have v1: "map trim (split_re list_marker_re True ?text) = ?pre # ?items"
    unfolding tx sr using gsplit_lines[OF assms(2) pre(1,2,3) assms(3), of True True]
    by (simp only: tp)
  have kp: "\<not> keep_item lc ?pre"
    by (simp add: keep_item_def toLowerCase_def ascii_lower_def str_def starts_with_def Let_def)
  have m2: "filter (keep_item lc) ?items = ?items"
    using items by (auto simp: filter_id_conv)
  have m3: "map (\<lambda>item. trim (greplace artifact_re False [] True item)) ?items = ?items"
    using items by (auto simp: greplace_no_match trim_trim)
  have v2: "filter (keep_item lc) (?pre # ?items) = ?items"
    by (simp only: filter.simps kp if_False m2)
  have v: "validItems lc ?text = ?items"
    by (simp only: validItems_def v1 v2 m3)
  have l: "1 < length ?items" using assms(1) by simp
  have q: \<open>\<not> ((str_includes (clean_fences ?text) (str ''", "'')
                \<or> starts_with (clean_fences ?text) (str ''"''))
              \<and> 1 < length (quotedItems (clean_fences ?text)))\<close>
    using assms(5) by (simp add: quoted_list_accepted_def)
  have r: "cleanAndParseJSON lc ?text = map JString ?items"
    unfolding cleanAndParseJSON_def Let_def assms(4) v using q l by auto
  have "?pre \<notin> set ?items" using items kp by auto
  then have "JString ?pre \<notin> set (map JString ?items)" by auto
  with r show ?thesis by (simp add: comp_def)
qed

theorem C9_marked_list_witness:
  \<open>2 \<le> length two_options
   \<and> list_all (well_marked id) two_options
   \<and> list_all is_space [32, 10]
   \<and> json_extraction (clean_fences (marked_text two_options @ [32, 10])) = Fallthrough
   \<and> \<not> quoted_list_accepted (clean_fences (marked_text two_options @ [32, 10]))
   \<and> marked_text two_options @ [32, 10]
       = str ''Here are some options:\<newline>Option 1 First [draft] item'' @ [13]
         @ str ''\<newline>  variation 2  Second "hi" item \<newline>''
   \<and> cleanAndParseJSON id (marked_text two_options @ [32, 10])
       = [JString (str ''First [draft] item''), JString (str ''Second "hi" item'')]
   \<and> JString (str ''Here are some options:'')
       \<notin> set (cleanAndParseJSON id (marked_text two_options @ [32, 10]))\<close>
proof -
  have h1: "2 \<le> length two_options" by (simp add: two_options_def)
  have h2: "list_all (well_marked id) two_options"
    by (simp add: marked_defs normalizer_defs)
  have h3: "list_all is_space [32, 10]" by (simp add: is_space_def)
  have h4: "json_extraction (clean_fences (marked_text two_options @ [32, 10])) = Fallthrough"
    by (simp add: marked_defs normalizer_defs)
  have h5: "\<not> quoted_list_accepted (clean_fences (marked_text two_options @ [32, 10]))"
    by (simp add: marked_defs normalizer_defs)
  have h6: \<open>marked_text two_options @ [32, 10]
       = str ''Here are some options:\<newline>Option 1 First [draft] item'' @ [13]
         @ str ''\<newline>  variation 2  Second "hi" item \<newline>''\<close>
    by (simp add: marked_defs str_def)
  have h7: \<open>map (\<lambda>e. JString (trim (l_item e))) two_options
       = [JString (str ''First [draft] item''), JString (str ''Second "hi" item'')]\<close>
    by (simp add: two_options_def str_def trim_def is_space_def)
  note c = C9_marked_list[OF h1 h2 h3 h4 h5]
  note c1 = conjunct1[OF c, unfolded h7]
  note c2 = conjunct2[OF c]
  show ?thesis
    by (intro conjI) (rule h1 h2 h3 h4 h5 h6 c1 c2)+
qed

text \<open>
  The claim as stated fails. With one item only, the whole text comes back as the sole
  element. With two items of which one quotes a bracketed number, step 2 returns that
  number. With two items of which one holds a quoted list, step 3A returns two pieces,
  the first of which starts with the preamble line. With two items in double quotes, the
  items come back without their quotes.
\<close>

theorem C9_counterexample:
  \<open>cleanAndParseJSON id (str ''Here are some options:\<newline>1. Only item'')
     = [JString (str ''Here are some options:\<newline>1. Only item'')]
   \<and> cleanAndParseJSON id (str ''Here are some options:\<newline>1. See note [1] here\<newline>2. Second item'')
     = [JNumber (str ''1'')]
   \<and> cleanAndParseJSON id
       (str ''Here are some options:\<newline>1. Say "hello", "goodbye" often\<newline>2. Second item'')
     = [JString (str ''Here are some options:\<newline>1. Say "hello''),
        JString (str ''goodbye" often\<newline>2. Second item'')]
   \<and> cleanAndParseJSON id
       (str ''Here are some options:\<newline>1. "Quoted item one"\<newline>2. "Quoted item two"'')
     = [JString (str ''Quoted item one''), JString (str ''Quoted item two'')]\<close>
  by (simp add: normalizer_defs)

text \<open>
  C7. Let \<open>s\<close> be a text that \<^verbatim>\<open>JSON.parse\<close> accepts as an array. Wrapped in code fences,
  that is \<^verbatim>\<open>```json\<close> before it and \<^verbatim>\<open>```\<close> after it, with any white space (or none)
  between the fences and \<open>s\<close>, it is normalized to the same sequence as \<open>s\<close> alone. Step 2
  of the cascade returns in both cases; and when \<open>s\<close> contains no backtick, the sequence
  is the array that \<open>s\<close> denotes.
\<close>

theorem C7_fenced_array:
  assumes "JSON_parse s = Some (JArray xs)"
    and "list_all is_space w1" and "list_all is_space w2"
  shows "cleanAndParseJSON lc (str ''```json'' @ w1 @ s @ w2 @ str ''```'') = cleanAndParseJSON lc s
       \<and> json_extraction (clean_fences s) \<noteq> Fallthrough
       \<and> (96 \<notin> set s \<longrightarrow> cleanAndParseJSON lc s = xs)"
proof -
  let ?f1 = "greplace fence_json_re True [] True"
  let ?f2 = "greplace fence_re False [] True"
  from json_array_shape[OF assms(1)] obtain v1 x v2 where
    sh: "s = v1 @ (91 # x @ [93]) @ v2" "list_all is_json_ws v2" by blast
  then have ne: "s \<noteq> []" and la: "is_json_ws (last s) \<or> last s = 93"
    by (auto simp: list_all_iff)
  have cf: "clean_fences (str ''```json'' @ w1 @ s @ w2 @ str ''```'') = clean_fences s"
    using ne la assms(2,3) by (rule clean_fences_wrapped)
  from assms(1) obtain ts where l: "lex s = Some ts" and pv: "parse_value ts = Some (JArray xs, [])"
    by (auto simp: JSON_parse_def split: option.splits list.splits)
  from lex_pass[OF fence_pass_json l] obtain ts1 where
    l1: "lex (?f1 s) = Some ts1" and k1: "map tkind ts1 = map tkind ts" by blast
  from lex_pass[OF fence_pass_plain l1] obtain ts2 where
    l2: "lex (?f2 (?f1 s)) = Some ts2" and k2: "map tkind ts2 = map tkind ts1" by blast
  from k1 k2 have "map tkind ts2 = map tkind ts" by simp
  from parse_kinds[OF this pv] obtain xs' where "parse_value ts2 = Some (JArray xs', [])" by blast
  with l2 have "JSON_parse (?f2 (?f1 s)) = Some (JArray xs')" by (simp add: JSON_parse_def)
  then have r: "json_extraction (clean_fences s) = Returned xs'"
    unfolding clean_fences_def by (rule json_extraction_array)
  have same: "cleanAndParseJSON lc (str ''```json'' @ w1 @ s @ w2 @ str ''```'') = cleanAndParseJSON lc s"
    unfolding cleanAndParseJSON_def Let_def cf r by simp
  have plainer: "cleanAndParseJSON lc s = xs" if "96 \<notin> set s"
  proof -
    have "?f1 s = s" using pass_prefix[OF fence_pass_json that, of "[]"] fence_pass_json
      by (simp add: fence_pass_def)
    moreover have "?f2 s = s" using pass_prefix[OF fence_pass_plain that, of "[]"] fence_pass_plain
      by (simp add: fence_pass_def)
    ultimately have "clean_fences s = trim s" by (simp add: clean_fences_def)
    with json_extraction_array[OF assms(1)] show ?thesis
      by (simp add: cleanAndParseJSON_def)
  qed
  from same r plainer show ?thesis by simp
qed

theorem C7_fenced_array_witness:
  "JSON_parse (str ''[1, [true, null], {}]'')
     = Some (JArray [JNumber (str ''1''), JArray [JBool True, JNull], JObject []])
   \<and> list_all is_space [10]
   \<and> 96 \<notin> set (str ''[1, [true, null], {}]'')
   \<and> str ''```json'' @ [10] @ str ''[1, [true, null], {}]'' @ [10] @ str ''```''
       = str ''```json\<newline>[1, [true, null], {}]\<newline>```''
   \<and> cleanAndParseJSON id (str ''```json\<newline>[1, [true, null], {}]\<newline>```'')
       = [JNumber (str ''1''), JArray [JBool True, JNull], JObject []]
   \<and> cleanAndParseJSON id (str ''[1, [true, null], {}]'')
       = [JNumber (str ''1''), JArray [JBool True, JNull], JObject []]"
proof -
  have h1: "JSON_parse (str ''[1, [true, null], {}]'')
              = Some (JArray [JNumber (str ''1''), JArray [JBool True, JNull], JObject []])"
    by (simp add: normalizer_defs)
  have h2: "list_all is_space [10]" by (simp add: is_space_def)
  have h3: "96 \<notin> set (str ''[1, [true, null], {}]'')" by (simp add: str_def)
  have h4: "str ''```json'' @ [10] @ str ''[1, [true, null], {}]'' @ [10] @ str ''```''
              = str ''```json\<newline>[1, [true, null], {}]\<newline>```''"
    by (simp add: str_def)
  show ?thesis
    using h1 h2 h3 h4 C7_fenced_array[OF h1 h2 h2, of id] by simp
qed


section \<open>Properties of the HTTP service\<close>

text \<open>
  C2. Whenever the \<^verbatim>\<open>/api/payment\<close> handler gets as far as calling the contract and the read
  call \<^verbatim>\<open>verifyPaymentSignature\<close> returns invalid with a reason, the response is HTTP 402 with
  the body \<^verbatim>\<open>{ success: false, error: reason }\<close>, and the verification is the only call the
  handler makes: neither \<^verbatim>\<open>executePayment\<close> nor the orchestrator is invoked.
\<close>

theorem C2_invalid_signature:
  assumes "snd (snd (payment_handler w b (g, []))) \<noteq> []"
    and "w_verify w (payment_args b) = Returns (False, reason)"
  shows "fst (payment_handler w b (g, []))
           = respond 402 [(''success'', VBool False), (''error'', VStr reason)]
       \<and> snd (snd (payment_handler w b (g, []))) = [EVerify (payment_args b)]"
  using assms
  by (auto simp: payment_handler_def emit_def split: if_splits outcome.splits)

theorem C2_invalid_signature_witness:
  "snd (snd (payment_handler demo_world demo_payment (False, []))) \<noteq> []
   \<and> w_verify demo_world (payment_args demo_payment) = Returns (False, str ''Invalid signature'')
   \<and> fst (payment_handler demo_world demo_payment (False, []))
       = respond 402 [(''success'', VBool False), (''error'', VStr (str ''Invalid signature''))]
   \<and> snd (snd (payment_handler demo_world demo_payment (False, [])))
       = [EVerify (payment_args demo_payment)]"
proof -
  have h1: "snd (snd (payment_handler demo_world demo_payment (False, []))) \<noteq> []"
    by (simp add: service_defs)
  have h2: "w_verify demo_world (payment_args demo_payment) = Returns (False, str ''Invalid signature'')"
    by (simp add: demo_world_def)
  show ?thesis
    using h1 h2 C2_invalid_signature[OF h1 h2] by simp
qed

text \<open>
  C5. Whenever the \<^verbatim>\<open>/api/execute-payment\<close> handler, for a request with a valid tier, gets
  as far as asking the token contract, and the allowance of the user for the facilitator
  is below the price of the tier, the response carries \<^verbatim>\<open>success: false\<close> and
  \<^verbatim>\<open>needsApproval: true\<close> (with HTTP 400), and the allowance query is the only call made:
  \<^verbatim>\<open>transferFrom\<close> is not issued.
\<close>

theorem C5_insufficient_allowance:
  assumes "snd (snd (execute_payment_handler w b (g, []))) \<noteq> []"
    and "toNumber w (prop_of b ''tier'') = Returns n"
    and "TIERS n = Some price"
    and "w_wallet w = Returns facilitator"
    and "w_allowance w (prop_of b ''userAddress'') facilitator = Returns allowance"
    and "allowance < price"
  shows "fst (execute_payment_handler w b (g, []))
           = respond 400 [(''success'', VBool False),
                          (''error'', VStr (str ''Insufficient USDC allowance. Please enable permissionless mode first.'')),
                          (''needsApproval'', VBool True)]
       \<and> snd (snd (execute_payment_handler w b (g, [])))
           = [EAllowance (prop_of b ''userAddress'') facilitator]"
  using assms
  by (auto simp: execute_payment_handler_def emit_def Let_def split: if_splits)

theorem C5_insufficient_allowance_witness:
  "snd (snd (execute_payment_handler demo_world demo_execute (False, []))) \<noteq> []
   \<and> toNumber demo_world (prop_of demo_execute ''tier'') = Returns (Some 2)
   \<and> TIERS (Some 2) = Some 15000000
   \<and> w_wallet demo_world = Returns (VStr (str ''0xFACE''))
   \<and> w_allowance demo_world (prop_of demo_execute ''userAddress'') (VStr (str ''0xFACE'')) = Returns 0
   \<and> (0::int) < 15000000
   \<and> fst (execute_payment_handler demo_world demo_execute (False, []))
       = respond 400 [(''success'', VBool False),
                      (''error'', VStr (str ''Insufficient USDC allowance. Please enable permissionless mode first.'')),
                      (''needsApproval'', VBool True)]
   \<and> snd (snd (execute_payment_handler demo_world demo_execute (False, [])))
       = [EAllowance (prop_of demo_execute ''userAddress'') (VStr (str ''0xFACE''))]"
proof -
  have h1: "snd (snd (execute_payment_handler demo_world demo_execute (False, []))) \<noteq> []"
    by (simp add: service_defs)
  have h2: "toNumber demo_world (prop_of demo_execute ''tier'') = Returns (Some 2)"
    by (simp add: service_defs)
  have h3: "TIERS (Some 2) = Some 15000000"
    by (simp add: TIERS_def)
  have h4: "w_wallet demo_world = Returns (VStr (str ''0xFACE''))"
    by (simp add: demo_world_def)
  have h5: "w_allowance demo_world (prop_of demo_execute ''userAddress'') (VStr (str ''0xFACE'')) = Returns 0"
    by (simp add: demo_world_def)
  have h6: "(0::int) < 15000000" by simp
  show ?thesis
    using h1 h2 h3 h4 h5 h6 C5_insufficient_allowance[OF h1 h2 h3 h4 h5 h6] by simp
qed







end
